theory Spec2Isabelle
  imports Complex_Main "HOL-Library.Multiset"
begin

section \<open>Leave-one-domain-out training: the control loop of train\_basic.py\<close>

text \<open>
  The theory embeds the control logic of
  \<^verbatim>\<open>emnlp_final_experiments/sentiment-analysis/train_basic.py\<close>: the function
  \<^verbatim>\<open>train\<close> (interleaved batch scheduling with gradient accumulation, early stopping)
  and the fold loop of the script (index splitting, index files, checkpoint loading, metric
  aggregation).  The neural network, the data sets and the experiment tracker are
  collaborators: their effects are recorded as events of a trace, their answers are
  parameters of the model.  Floating-point values (accuracies, the train fraction) are
  modelled as reals; Python integers as \<open>int\<close> or \<open>nat\<close>.
\<close>

subsection \<open>Errors, events and arguments\<close>

text \<open>The exceptions the modelled code can raise; none of them is caught by the script.\<close>

datatype py_error = ZeroDivisionError | IndexError | ValueError | FileNotFoundError | NameError

text \<open>The five numbers an evaluator returns: \<^verbatim>\<open>(loss, acc, P, R, F1)\<close>.\<close>

record metrics =
  loss :: real
  acc :: real
  precision :: real
  recall :: real
  F1 :: real

text \<open>
  What the training loop does to its collaborators, in program order.
  \<open>Forward d b g\<close>: the model is run on batch \<open>b\<close>, pulled from the iterator of domain
  slot \<open>d\<close>, and the loss is divided by \<open>g\<close> (line 89-90);
  \<open>LogLoss i\<close>: \<^verbatim>\<open>wandb.log({"Loss": ...})\<close> at batch counter \<open>i\<close> (line 93);
  \<open>Backward\<close>: \<^verbatim>\<open>loss.backward()\<close>;
  \<open>Evaluate e\<close>: the validation pass after epoch \<open>e\<close> (line 108);
  \<open>TorchSave p e\<close>: \<^verbatim>\<open>torch.save\<close> of the weights to path \<open>p\<close> after epoch \<open>e\<close> (line 120);
  \<open>LogValidation m\<close>: the validation metrics sent to the tracker (line 123).
\<close>

datatype 'b event =
    ZeroGrad
  | Forward nat 'b int
  | LogLoss nat
  | Backward
  | OptimizerStep
  | SchedulerStep
  | Evaluate nat
  | TorchSave string nat
  | LogValidation metrics

text \<open>
  The scalar arguments of \<^verbatim>\<open>train\<close>.  \<open>has_scheduler\<close> is \<^verbatim>\<open>scheduler is not None\<close>;
  \<open>run_dir\<close> is \<^verbatim>\<open>Path(wandb.run.dir).name\<close>.
\<close>

record train_args =
  n_epochs :: int
  log_interval :: int
  patience :: int
  gradient_accumulation :: int
  has_scheduler :: bool
  model_dir :: string
  run_dir :: string
  domain_name :: string

subsection \<open>One epoch: the interleaved scheduler (lines 61-103)\<close>

text \<open>
  A data loader is the list of the batches its iterator yields in this epoch; an iterator
  is the list of batches still to come.  \<open>batch_i\<close> is the source's counter \<open>i\<close>;
  \<open>rng\<close> is the state of Python's global random generator.
\<close>

record ('b, 'r) epoch_state =
  dl_iters :: "'b list list"
  dl_idx :: "nat list"
  finished :: "nat list"
  batch_i :: nat
  rng :: 'r

text \<open>
  Lines 71-75: \<^verbatim>\<open>for j in range(gradient_accumulation): batches.append(next(domain_dl))\<close>.
  The result is the batches pulled, the iterator left, and whether \<^verbatim>\<open>StopIteration\<close>
  was raised.
\<close>

fun pull :: "nat \<Rightarrow> 'b list \<Rightarrow> 'b list \<Rightarrow> 'b list \<times> 'b list \<times> bool" where
  "pull 0 it batches = (batches, it, False)"
| "pull (Suc j) [] batches = (batches, [], True)"
| "pull (Suc j) (b # it) batches = pull j it (batches @ [b])"

text \<open>
  Lines 79-99, the loop over the batches of one accumulation group.  \<^verbatim>\<open>i % log_interval\<close>
  raises \<^verbatim>\<open>ZeroDivisionError\<close> when \<open>log_interval\<close> is 0.  The result is the new counter
  and the events.
\<close>

fun run_batches :: "train_args \<Rightarrow> nat \<Rightarrow> 'b list \<Rightarrow> nat \<Rightarrow> py_error + nat \<times> 'b event list" where
  "run_batches a d [] i = Inr (i, [])"
| "run_batches a d (b # bs) i =
     (if log_interval a = 0 then Inl ZeroDivisionError
      else (case run_batches a d bs (i + 1) of
              Inl e \<Rightarrow> Inl e
            | Inr (i', evs) \<Rightarrow>
                Inr (i', [Forward d b (gradient_accumulation a)]
                         @ (if int i mod log_interval a = 0 then [LogLoss i] else [])
                         @ [Backward] @ evs)))"

text \<open>Lines 69-103: the body of \<^verbatim>\<open>for d in dl_idx\<close>.\<close>

definition visit :: "train_args \<Rightarrow> nat \<Rightarrow> ('b, 'r) epoch_state
    \<Rightarrow> py_error + ('b, 'r) epoch_state \<times> 'b event list" where
  "visit a d st =
     (case pull (nat (gradient_accumulation a)) (dl_iters st ! d) [] of
        (batches, domain_dl, stop) \<Rightarrow>
          let st1 = st\<lparr>dl_iters := (dl_iters st)[d := domain_dl],
                       finished := (if stop then (finished st)[d := 1] else finished st)\<rparr>
          in if stop \<and> batches = [] then Inr (st1, [])
             else (case run_batches a d batches (batch_i st1) of
                     Inl e \<Rightarrow> Inl e
                   | Inr (i', evs) \<Rightarrow>
                       Inr (st1\<lparr>batch_i := i'\<rparr>,
                            [ZeroGrad] @ evs @ [OptimizerStep]
                            @ (if has_scheduler a then [SchedulerStep] else []))))"

text \<open>Line 68: \<^verbatim>\<open>for d in dl_idx\<close>.\<close>

fun visit_all :: "train_args \<Rightarrow> nat list \<Rightarrow> ('b, 'r) epoch_state
    \<Rightarrow> py_error + ('b, 'r) epoch_state \<times> 'b event list" where
  "visit_all a [] st = Inr (st, [])"
| "visit_all a (d # ds) st =
     (case visit a d st of
        Inl e \<Rightarrow> Inl e
      | Inr (st1, ev1) \<Rightarrow>
          (case visit_all a ds st1 of
             Inl e \<Rightarrow> Inl e
           | Inr (st2, ev2) \<Rightarrow> Inr (st2, ev1 @ ev2)))"

text \<open>
  Lines 66-67: \<^verbatim>\<open>while sum(finished) < len(dl_iters): random.shuffle(dl_idx); ...\<close>.
  The loop need not end (it does not when \<open>gradient_accumulation\<close> is below 1), so it runs
  on fuel, one unit for each pass; \<open>None\<close> is a loop that has not ended within the fuel.
  \<open>shuffle\<close> is \<^verbatim>\<open>random.shuffle\<close>: from the generator state and a list to the shuffled
  list and the next state.
\<close>

fun epoch_loop :: "nat \<Rightarrow> ('r \<Rightarrow> nat list \<Rightarrow> nat list \<times> 'r) \<Rightarrow> train_args
    \<Rightarrow> ('b, 'r) epoch_state \<Rightarrow> (py_error + ('b, 'r) epoch_state \<times> 'b event list) option" where
  "epoch_loop 0 shuffle a st =
     (if sum_list (finished st) < length (dl_iters st) then None else Some (Inr (st, [])))"
| "epoch_loop (Suc fuel) shuffle a st =
     (if sum_list (finished st) < length (dl_iters st) then
        (case shuffle (rng st) (dl_idx st) of
           (idx, r) \<Rightarrow>
             (case visit_all a idx (st\<lparr>dl_idx := idx, rng := r\<rparr>) of
                Inl e \<Rightarrow> Some (Inl e)
              | Inr (st1, ev1) \<Rightarrow>
                  (case epoch_loop fuel shuffle a st1 of
                     None \<Rightarrow> None
                   | Some (Inl e) \<Rightarrow> Some (Inl e)
                   | Some (Inr (st2, ev2)) \<Rightarrow> Some (Inr (st2, ev1 @ ev2)))))
      else Some (Inr (st, [])))"

text \<open>Lines 61-64: the iterators, the index list, the flags and the counter of a new epoch.\<close>

definition run_epoch :: "nat \<Rightarrow> ('r \<Rightarrow> nat list \<Rightarrow> nat list \<times> 'r) \<Rightarrow> train_args
    \<Rightarrow> 'b list list \<Rightarrow> 'r \<Rightarrow> (py_error + ('b, 'r) epoch_state \<times> 'b event list) option" where
  "run_epoch fuel shuffle a train_dls r =
     epoch_loop fuel shuffle a
       \<lparr>dl_iters = train_dls, dl_idx = [0..<length train_dls],
        finished = replicate (length train_dls) 0, batch_i = 0, rng = r\<rparr>"

subsection \<open>The epochs: early stopping and the checkpoint (lines 53-60, 108-136)\<close>

text \<open>
  \<open>ckpts\<close> is the part of the file system that holds checkpoints: a path is mapped to the
  weights saved there, named by the domain and the epoch they were saved after.
\<close>

record 'r train_state =
  best_acc :: real
  patience_counter :: int
  epoch_counter :: nat
  t_rng :: 'r
  ckpts :: "string \<rightharpoonup> string \<times> nat"

definition ckpt_path :: "train_args \<Rightarrow> string" where
  "ckpt_path a = model_dir a @ ''/'' @ run_dir a @ ''/model_'' @ domain_name a @ ''.pth''"

text \<open>
  Lines 115-136, after the validation pass returned \<open>m\<close>.  The first component is
  \<open>True\<close> when the loop is left by \<^verbatim>\<open>break\<close>.
\<close>

definition after_epoch :: "train_args \<Rightarrow> metrics \<Rightarrow> 'r train_state
    \<Rightarrow> bool \<times> 'r train_state \<times> 'b event list" where
  "after_epoch a m st =
     (if acc m > best_acc st then
        (False,
         st\<lparr>best_acc := acc m,
            ckpts := (ckpts st)(ckpt_path a \<mapsto> (domain_name a, epoch_counter st)),
            patience_counter := 0,
            epoch_counter := epoch_counter st + 1\<rparr>,
         [TorchSave (ckpt_path a) (epoch_counter st), LogValidation m])
      else
        (let pc = patience_counter st + 1 in
         if pc = patience a then (True, st\<lparr>patience_counter := pc\<rparr>, [])
         else (False, st\<lparr>patience_counter := pc, epoch_counter := epoch_counter st + 1\<rparr>, [])))"

text \<open>
  Line 60: \<^verbatim>\<open>while epoch_counter < n_epochs\<close>.  \<open>evaluate e\<close> is what
  \<^verbatim>\<open>validation_evaluator.evaluate(model)\<close> returns after epoch \<open>e\<close>.
\<close>

function train_loop :: "nat \<Rightarrow> ('r \<Rightarrow> nat list \<Rightarrow> nat list \<times> 'r) \<Rightarrow> (nat \<Rightarrow> metrics)
    \<Rightarrow> train_args \<Rightarrow> 'b list list \<Rightarrow> 'r train_state
    \<Rightarrow> (py_error + 'r train_state \<times> 'b event list) option" where
  "train_loop fuel shuffle evaluate a train_dls st =
     (if int (epoch_counter st) < n_epochs a then
        (case run_epoch fuel shuffle a train_dls (t_rng st) of
           None \<Rightarrow> None
         | Some (Inl e) \<Rightarrow> Some (Inl e)
         | Some (Inr (es, ev1)) \<Rightarrow>
             (let r = after_epoch a (evaluate (epoch_counter st)) (st\<lparr>t_rng := rng es\<rparr>);
                  ev = ev1 @ [Evaluate (epoch_counter st)] @ snd (snd r)
              in if fst r then Some (Inr (fst (snd r), ev))
                 else (case train_loop fuel shuffle evaluate a train_dls (fst (snd r)) of
                         None \<Rightarrow> None
                       | Some (Inl e) \<Rightarrow> Some (Inl e)
                       | Some (Inr (st2, ev3)) \<Rightarrow> Some (Inr (st2, ev @ ev3)))))
      else Some (Inr (st, [])))"
  by pat_completeness auto
termination
proof (relation "measure (\<lambda>(fuel, shuffle, evaluate, a, train_dls, st).
                   nat (n_epochs a - int (epoch_counter st)))", goal_cases)
  case 1
  then show ?case by simp
next
  case (2 fuel shuffle evaluate a train_dls st x2 x2a x y r ev)
  then show ?case
    by (auto simp: after_epoch_def Let_def split: if_splits)
qed

declare train_loop.simps [simp del]

text \<open>Lines 53-56: the initial state.  \<open>fs\<close> is the checkpoint store before the call.\<close>

definition train :: "nat \<Rightarrow> ('r \<Rightarrow> nat list \<Rightarrow> nat list \<times> 'r) \<Rightarrow> (nat \<Rightarrow> metrics)
    \<Rightarrow> train_args \<Rightarrow> 'b list list \<Rightarrow> 'r \<Rightarrow> (string \<rightharpoonup> string \<times> nat)
    \<Rightarrow> (py_error + 'r train_state \<times> 'b event list) option" where
  "train fuel shuffle evaluate a train_dls r fs =
     train_loop fuel shuffle evaluate a train_dls
       \<lparr>best_acc = 0, patience_counter = 0, epoch_counter = 0, t_rng = r, ckpts = fs\<rparr>"

subsection \<open>One fold: training, loading the best weights, testing (lines 307-345)\<close>




subsection \<open>Collecting and aggregating the folds' metrics (lines 225-231, 340-361)\<close>

text \<open>The lists of lines 225-231, and the variable \<^verbatim>\<open>loss\<close>, which is unbound until the
  first fold has been tested.\<close>

record accum =
  accs :: "real list"
  Ps :: "real list"
  Rs :: "real list"
  F1s :: "real list"
  labels_all :: "int list"
  logits_all :: "real list list"
  last_loss :: "real option"









subsection \<open>Accuracy\<close>

text \<open>
  Modelled from the spec: the function \<^verbatim>\<open>acc_f1\<close> and the evaluators of the module
  \<^verbatim>\<open>metrics\<close> are missing from the sources.  The spec's metric collaborator computes
  accuracy from logits and labels; the predicted label is the position of the largest logit,
  as in line 347 (\<^verbatim>\<open>np.argmax(logits, axis=-1)\<close>, the first position of the maximum), and
  accuracy is the share of examples whose predicted label is the true label.  Precision,
  recall and F1 are left as a parameter \<open>others\<close>.
\<close>

fun argmax_from :: "real list \<Rightarrow> nat \<Rightarrow> nat \<Rightarrow> real \<Rightarrow> nat" where
  "argmax_from [] i best_i best = best_i"
| "argmax_from (x # xs) i best_i best =
     (if x > best then argmax_from xs (Suc i) i x else argmax_from xs (Suc i) best_i best)"

definition argmax :: "real list \<Rightarrow> nat" where
  "argmax xs = (case xs of [] \<Rightarrow> 0 | x # rest \<Rightarrow> argmax_from rest 1 0 x)"

definition n_correct :: "real list list \<Rightarrow> int list \<Rightarrow> nat" where
  "n_correct lgs lbs = length (filter (\<lambda>(lg, l). int (argmax lg) = l) (zip lgs lbs))"



subsection \<open>Splitting the remaining domains (lines 222-223, 245-247)\<close>







text \<open>The data sets of a fold, in registry order without the held-out one:
  \<^verbatim>\<open>[all_dsets[j] for j in range(len(all_dsets)) if j != i]\<close>.\<close>

definition remaining :: "nat \<Rightarrow> 'a list \<Rightarrow> 'a list" where
  "remaining i xs = map (\<lambda>j. xs ! j) (filter (\<lambda>j. j \<noteq> i) [0..<length xs])"

subsection \<open>The index files (lines 249-255)\<close>

text \<open>The decimal numeral of a natural number, as an f-string prints an \<^verbatim>\<open>int\<close>.\<close>

definition digit_char :: "nat \<Rightarrow> char" where
  "digit_char d = char_of (48 + d)"

fun str_nat :: "nat \<Rightarrow> string" where
  "str_nat n = (if n < 10 then [digit_char n] else str_nat (n div 10) @ [digit_char (n mod 10)])"

declare str_nat.simps [simp del]

text \<open>Line 253: \<^verbatim>\<open>f'{j},{idx}\n'\<close>.\<close>

definition index_line :: "nat \<Rightarrow> nat \<Rightarrow> string" where
  "index_line j idx = str_nat j @ '','' @ str_nat idx @ [CHR 10]"

text \<open>Lines 251-255 for one of the two files: what is written for the subsets from slot \<open>j\<close>
  on, each given by its index list.\<close>

fun write_indices :: "nat \<Rightarrow> nat list list \<Rightarrow> string" where
  "write_indices j [] = []"
| "write_indices j (idxs # rest) = concat (map (index_line j) idxs) @ write_indices (Suc j) rest"

definition train_idx_path :: "string \<Rightarrow> string \<Rightarrow> string" where
  "train_idx_path dir domain = dir @ ''/train_idx_'' @ domain @ ''.txt''"

definition val_idx_path :: "string \<Rightarrow> string \<Rightarrow> string" where
  "val_idx_path dir domain = dir @ ''/val_idx_'' @ domain @ ''.txt''"

text \<open>The directory of a run: \<^verbatim>\<open>f'{args.model_dir}/{Path(wandb.run.dir).name}'\<close>.\<close>

definition run_path :: "train_args \<Rightarrow> string" where
  "run_path a = model_dir a @ ''/'' @ run_dir a"

text \<open>Lines 249-255: both files are opened for writing (created or emptied) and written.
  \<open>files\<close> maps the path of a text file to its content.\<close>

definition save_indices :: "train_args \<Rightarrow> string \<Rightarrow> (nat list \<times> nat list) list
    \<Rightarrow> (string \<rightharpoonup> string) \<Rightarrow> (string \<rightharpoonup> string)" where
  "save_indices a domain subsets files =
     files(train_idx_path (run_path a) domain \<mapsto> write_indices 0 (map fst subsets),
           val_idx_path (run_path a) domain \<mapsto> write_indices 0 (map snd subsets))"


subsection \<open>Reloading the index files (lines 258-269)\<close>

text \<open>The ASCII characters that \<^verbatim>\<open>str.strip()\<close> and \<^verbatim>\<open>int()\<close> treat as white space.\<close>

definition is_space :: "char \<Rightarrow> bool" where
  "is_space c = (let k = of_char c :: nat in (9 \<le> k \<and> k \<le> 13) \<or> (28 \<le> k \<and> k \<le> 32))"

definition strip :: "string \<Rightarrow> string" where
  "strip s = rev (dropWhile is_space (rev (dropWhile is_space s)))"

text \<open>\<^verbatim>\<open>s.split(c)\<close>; \<open>cur\<close> is the field read so far.\<close>

fun split_on :: "char \<Rightarrow> string \<Rightarrow> string \<Rightarrow> string list" where
  "split_on c [] cur = [cur]"
| "split_on c (x # xs) cur = (if x = c then cur # split_on c xs [] else split_on c xs (cur @ [x]))"

text \<open>Iterating over a text file: the lines, each with its newline; the content is taken
  after newline translation.\<close>

fun file_lines :: "string \<Rightarrow> string \<Rightarrow> string list" where
  "file_lines [] cur = (if cur = [] then [] else [cur])"
| "file_lines (x # xs) cur =
     (if x = CHR 10 then (cur @ [x]) # file_lines xs [] else file_lines xs (cur @ [x]))"

definition is_digit :: "char \<Rightarrow> bool" where
  "is_digit c = (let k = of_char c :: nat in 48 \<le> k \<and> k \<le> 57)"

definition digit_val :: "char \<Rightarrow> nat" where
  "digit_val c = of_char c - 48"

text \<open>The digits of a decimal literal: digits with single underscores between them.\<close>

fun digits_ok :: "string \<Rightarrow> bool" where
  "digits_ok [] = False"
| "digits_ok [c] = is_digit c"
| "digits_ok (c # d # cs) =
     (if is_digit c then (if d = CHR ''_'' then digits_ok cs else digits_ok (d # cs)) else False)"

definition digits_num :: "string \<Rightarrow> nat" where
  "digits_num ds = foldl (\<lambda>n c. 10 * n + digit_val c) 0 (filter (\<lambda>c. c \<noteq> CHR ''_'') ds)"

text \<open>\<^verbatim>\<open>int(s)\<close> of a string of ASCII characters: white space around, an optional sign,
  decimal digits; otherwise \<^verbatim>\<open>ValueError\<close>.\<close>

definition py_int :: "string \<Rightarrow> py_error + int" where
  "py_int s =
     (case strip s of
        [] \<Rightarrow> Inl ValueError
      | c # cs \<Rightarrow>
          (if c = CHR ''-'' then (if digits_ok cs then Inr (- int (digits_num cs)) else Inl ValueError)
           else if c = CHR ''+'' then (if digits_ok cs then Inr (int (digits_num cs)) else Inl ValueError)
           else (if digits_ok (c # cs) then Inr (int (digits_num (c # cs))) else Inl ValueError)))"

text \<open>Lines 263-264 without the append: \<^verbatim>\<open>vals = l.strip().split(',')\<close>, then
  \<^verbatim>\<open>int(vals[0])\<close>, \<^verbatim>\<open>vals[1]\<close> and \<^verbatim>\<open>int(vals[1])\<close> in this order.\<close>

definition parse_line :: "string \<Rightarrow> py_error + int \<times> int" where
  "parse_line l =
     (case split_on (CHR '','') (strip l) [] of
        [] \<Rightarrow> Inl IndexError
      | v0 # vs \<Rightarrow>
          (case py_int v0 of
             Inl e \<Rightarrow> Inl e
           | Inr d \<Rightarrow>
               (case vs of
                  [] \<Rightarrow> Inl IndexError
                | v1 # _ \<Rightarrow>
                    (case py_int v1 of Inl e \<Rightarrow> Inl e | Inr idx \<Rightarrow> Inr (d, idx)))))"

text \<open>
  \<^verbatim>\<open>subset_indices = defaultdict(lambda: [[], []])\<close>: a dictionary in insertion order, from a
  slot to its train and validation index lists.  \<open>dd_append_train\<close> is
  \<^verbatim>\<open>subset_indices[d][0].append(idx)\<close>, \<open>dd_append_val\<close> the same with \<^verbatim>\<open>[1]\<close>.
\<close>

type_synonym index_dict = "(int \<times> int list \<times> int list) list"

definition dd_append_train :: "int \<Rightarrow> int \<Rightarrow> index_dict \<Rightarrow> index_dict" where
  "dd_append_train d idx m =
     (case map_of m d of
        None \<Rightarrow> m @ [(d, [idx], [])]
      | Some _ \<Rightarrow> map (\<lambda>(k, tr, va). if k = d then (k, tr @ [idx], va) else (k, tr, va)) m)"

definition dd_append_val :: "int \<Rightarrow> int \<Rightarrow> index_dict \<Rightarrow> index_dict" where
  "dd_append_val d idx m =
     (case map_of m d of
        None \<Rightarrow> m @ [(d, [], [idx])]
      | Some _ \<Rightarrow> map (\<lambda>(k, tr, va). if k = d then (k, tr, va @ [idx]) else (k, tr, va)) m)"

text \<open>Lines 262-264 and 265-267: the loops over the lines of the two files.\<close>

fun read_train :: "string list \<Rightarrow> index_dict \<Rightarrow> py_error + index_dict" where
  "read_train [] m = Inr m"
| "read_train (l # ls) m =
     (case parse_line l of
        Inl e \<Rightarrow> Inl e
      | Inr (d, idx) \<Rightarrow> read_train ls (dd_append_train d idx m))"

fun read_val :: "string list \<Rightarrow> index_dict \<Rightarrow> py_error + index_dict" where
  "read_val [] m = Inr m"
| "read_val (l # ls) m =
     (case parse_line l of
        Inl e \<Rightarrow> Inl e
      | Inr (d, idx) \<Rightarrow> read_val ls (dd_append_val d idx m))"

text \<open>\<^verbatim>\<open>dset_choices[d]\<close>: a slot below \<open>- len\<close> or from \<open>len\<close> on raises
  \<^verbatim>\<open>IndexError\<close>, a negative slot in range counts from the end of the list.\<close>

definition py_index :: "'a list \<Rightarrow> int \<Rightarrow> py_error + 'a" where
  "py_index xs i =
     (if i < - int (length xs) \<or> int (length xs) \<le> i then Inl IndexError
      else if i < 0 then Inr (xs ! nat (int (length xs) + i))
      else Inr (xs ! nat i))"

text \<open>Lines 268-269: a pair of subsets for every key of the dictionary, each subset a data
  set with an index list.\<close>

fun build_subsets :: "'d list \<Rightarrow> index_dict \<Rightarrow> py_error + ('d \<times> int list \<times> int list) list" where
  "build_subsets dset_choices [] = Inr []"
| "build_subsets dset_choices ((d, tr, va) # m) =
     (case py_index dset_choices d of
        Inl e \<Rightarrow> Inl e
      | Inr ds \<Rightarrow>
          (case build_subsets dset_choices m of
             Inl e \<Rightarrow> Inl e
           | Inr subs \<Rightarrow> Inr ((ds, tr, va) # subs)))"

definition open_read :: "(string \<rightharpoonup> string) \<Rightarrow> string \<Rightarrow> py_error + string" where
  "open_read files p = (case files p of None \<Rightarrow> Inl FileNotFoundError | Some s \<Rightarrow> Inr s)"

text \<open>Lines 258-269: the reload of the fold that holds out \<open>domain\<close>.\<close>

definition reload_split :: "string \<Rightarrow> string \<Rightarrow> 'd list \<Rightarrow> (string \<rightharpoonup> string)
    \<Rightarrow> py_error + ('d \<times> int list \<times> int list) list" where
  "reload_split indices_dir domain dset_choices files =
     (case open_read files (train_idx_path indices_dir domain) of
        Inl e \<Rightarrow> Inl e
      | Inr f \<Rightarrow>
          (case open_read files (val_idx_path indices_dir domain) of
             Inl e \<Rightarrow> Inl e
           | Inr g \<Rightarrow>
               (case read_train (file_lines f []) [] of
                  Inl e \<Rightarrow> Inl e
                | Inr m1 \<Rightarrow>
                    (case read_val (file_lines g []) m1 of
                       Inl e \<Rightarrow> Inl e
                     | Inr m2 \<Rightarrow> build_subsets dset_choices m2))))"

section \<open>Reading a trace\<close>

text \<open>The batches of domain slot \<open>d\<close> that the model was run on, in order.\<close>

fun consumed :: "nat \<Rightarrow> 'b event list \<Rightarrow> 'b list" where
  "consumed d [] = []"
| "consumed d (Forward d' b g # evs) = (if d' = d then b # consumed d evs else consumed d evs)"
| "consumed d (_ # evs) = consumed d evs"

text \<open>
  The accumulation groups of a trace: for every optimizer step, the domain slots of the
  forward passes since the step before it.  \<open>cur\<close> holds the slots of the group that is
  still open.
\<close>

fun acc_groups :: "'b event list \<Rightarrow> nat list \<Rightarrow> nat list list" where
  "acc_groups [] cur = []"
| "acc_groups (OptimizerStep # evs) cur = cur # acc_groups evs []"
| "acc_groups (Forward d b g # evs) cur = acc_groups evs (cur @ [d])"
| "acc_groups (_ # evs) cur = acc_groups evs cur"

text \<open>The slots of the forward passes after the last optimizer step.\<close>

fun pending :: "'b event list \<Rightarrow> nat list \<Rightarrow> nat list" where
  "pending [] cur = cur"
| "pending (OptimizerStep # evs) cur = pending evs []"
| "pending (Forward d b g # evs) cur = pending evs (cur @ [d])"
| "pending (_ # evs) cur = pending evs cur"

text \<open>The batch counters at which a loss was logged.\<close>

fun loss_logs :: "'b event list \<Rightarrow> nat list" where
  "loss_logs [] = []"
| "loss_logs (LogLoss i # evs) = i # loss_logs evs"
| "loss_logs (_ # evs) = loss_logs evs"

text \<open>The divisors the losses were scaled by.\<close>

fun divisors :: "'b event list \<Rightarrow> int list" where
  "divisors [] = []"
| "divisors (Forward d b g # evs) = g # divisors evs"
| "divisors (_ # evs) = divisors evs"

definition opt_steps :: "'b event list \<Rightarrow> nat" where
  "opt_steps evs = length (filter (\<lambda>e. e = OptimizerStep) evs)"

definition sched_steps :: "'b event list \<Rightarrow> nat" where
  "sched_steps evs = length (filter (\<lambda>e. e = SchedulerStep) evs)"

definition zero_grads :: "'b event list \<Rightarrow> nat" where
  "zero_grads evs = length (filter (\<lambda>e. e = ZeroGrad) evs)"

text \<open>The epochs that were validated, the epochs a checkpoint was saved after, and the
  validation metrics that were logged.\<close>

fun evaluated :: "'b event list \<Rightarrow> nat list" where
  "evaluated [] = []"
| "evaluated (Evaluate e # evs) = e # evaluated evs"
| "evaluated (_ # evs) = evaluated evs"

fun saved :: "'b event list \<Rightarrow> nat list" where
  "saved [] = []"
| "saved (TorchSave p e # evs) = e # saved evs"
| "saved (_ # evs) = saved evs"

fun val_logs :: "'b event list \<Rightarrow> metrics list" where
  "val_logs [] = []"
| "val_logs (LogValidation m # evs) = m # val_logs evs"
| "val_logs (_ # evs) = val_logs evs"

section \<open>The schedule of an epoch\<close>

text \<open>
  An epoch that ends is described by its schedule: the list of its accumulation groups,
  each a domain slot with the batches pulled from it.  \<open>render\<close> gives the events of a
  schedule, starting at batch counter \<open>i\<close>.
\<close>

fun batch_events :: "train_args \<Rightarrow> nat \<Rightarrow> 'b list \<Rightarrow> nat \<Rightarrow> 'b event list" where
  "batch_events a d [] i = []"
| "batch_events a d (b # bs) i =
     [Forward d b (gradient_accumulation a)]
     @ (if int i mod log_interval a = 0 then [LogLoss i] else [])
     @ [Backward] @ batch_events a d bs (Suc i)"

fun render :: "train_args \<Rightarrow> nat \<Rightarrow> (nat \<times> 'b list) list \<Rightarrow> 'b event list" where
  "render a i [] = []"
| "render a i ((d, bs) # gs) =
     [ZeroGrad] @ batch_events a d bs i @ [OptimizerStep]
     @ (if has_scheduler a then [SchedulerStep] else [])
     @ render a (i + length bs) gs"

definition of_domain :: "nat \<Rightarrow> (nat \<times> 'b list) list \<Rightarrow> 'b list" where
  "of_domain d gs = concat (map snd (filter (\<lambda>g. fst g = d) gs))"

definition cdiv :: "nat \<Rightarrow> nat \<Rightarrow> nat" where
  "cdiv n g = (n + g - 1) div g"

definition visit_groups :: "train_args \<Rightarrow> nat \<Rightarrow> ('b, 'r) epoch_state \<Rightarrow> (nat \<times> 'b list) list" where
  "visit_groups a d st =
     (if dl_iters st ! d = [] then []
      else [(d, take (nat (gradient_accumulation a)) (dl_iters st ! d))])"

definition visit_state :: "train_args \<Rightarrow> nat \<Rightarrow> ('b, 'r) epoch_state \<Rightarrow> ('b, 'r) epoch_state" where
  "visit_state a d st =
     st\<lparr>dl_iters := (dl_iters st)[d := drop (nat (gradient_accumulation a)) (dl_iters st ! d)],
        finished := (if length (dl_iters st ! d) < nat (gradient_accumulation a)
                     then (finished st)[d := 1] else finished st),
        batch_i := batch_i st + length (take (nat (gradient_accumulation a)) (dl_iters st ! d))\<rparr>"

definition flags_ok :: "('b, 'r) epoch_state \<Rightarrow> bool" where
  "flags_ok st \<longleftrightarrow>
     length (finished st) = length (dl_iters st) \<and>
     (\<forall>d < length (dl_iters st).
        finished st ! d \<le> 1 \<and> (finished st ! d = 1 \<longrightarrow> dl_iters st ! d = []))"

definition work_left :: "('b, 'r) epoch_state \<Rightarrow> nat" where
  "work_left st =
     sum_list (map length (dl_iters st)) + (length (finished st) - sum_list (finished st))"

definition steps_left :: "train_args \<Rightarrow> ('b, 'r) epoch_state \<Rightarrow> nat" where
  "steps_left a st =
     sum_list (map (\<lambda>it. cdiv (length it) (nat (gradient_accumulation a))) (dl_iters st))"

definition sched_rel :: "train_args \<Rightarrow> ('b, 'r) epoch_state \<Rightarrow> (nat \<times> 'b list) list
    \<Rightarrow> ('b, 'r) epoch_state \<Rightarrow> bool" where
  "sched_rel a st gs st' \<longleftrightarrow>
     length (dl_iters st') = length (dl_iters st) \<and>
     (\<forall>d < length (dl_iters st). of_domain d gs @ dl_iters st' ! d = dl_iters st ! d) \<and>
     (\<forall>g \<in> set gs. fst g < length (dl_iters st) \<and> snd g \<noteq> []
                     \<and> length (snd g) \<le> nat (gradient_accumulation a)) \<and>
     batch_i st' = batch_i st + sum_list (map (\<lambda>g. length (snd g)) gs) \<and>
     batch_i st' + sum_list (map length (dl_iters st'))
       = batch_i st + sum_list (map length (dl_iters st)) \<and>
     length gs + steps_left a st' = steps_left a st"

section \<open>The early-stopping controller as a function of the accuracies\<close>

text \<open>
  What the loop of \<^verbatim>\<open>train\<close> decides depends only on the validation accuracies: \<open>ctl\<close>
  follows lines 60 and 115-136 for at most \<open>k\<close> further epochs, from the best accuracy, the
  patience counter and the epoch counter, and returns the epochs validated, the epochs a
  checkpoint was saved after, and the final best accuracy, patience counter and epoch
  counter.  \<open>vacc e\<close> is the validation accuracy after epoch \<open>e\<close>.
\<close>

fun ctl :: "int \<Rightarrow> (nat \<Rightarrow> real) \<Rightarrow> nat \<Rightarrow> real \<Rightarrow> int \<Rightarrow> nat
    \<Rightarrow> nat list \<times> nat list \<times> real \<times> int \<times> nat" where
  "ctl p vacc 0 best pc e = ([], [], best, pc, e)"
| "ctl p vacc (Suc k) best pc e =
     (if vacc e > best then
        (case ctl p vacc k (vacc e) 0 (Suc e) of
           (evs, svs, rest) \<Rightarrow> (e # evs, e # svs, rest))
      else if pc + 1 = p then ([e], [], best, pc + 1, e)
      else
        (case ctl p vacc k best (pc + 1) (Suc e) of
           (evs, svs, rest) \<Rightarrow> (e # evs, svs, rest)))"

text \<open>The losses logged in one epoch over \<open>n\<close> batches.\<close>

definition epoch_logs :: "train_args \<Rightarrow> nat \<Rightarrow> nat list" where
  "epoch_logs a n = filter (\<lambda>i. int i mod log_interval a = 0) [0..<n]"

text \<open>The best validation accuracy seen before epoch \<open>e\<close>, starting from 0.0.\<close>

primrec best_before :: "(nat \<Rightarrow> real) \<Rightarrow> nat \<Rightarrow> real" where
  "best_before vacc 0 = 0"
| "best_before vacc (Suc e) = max (best_before vacc e) (vacc e)"

section \<open>Reading the index files as lists of entries\<close>

text \<open>All lines of a file parsed, or the first error.\<close>

fun parse_all :: "string list \<Rightarrow> py_error + (int \<times> int) list" where
  "parse_all [] = Inr []"
| "parse_all (l # ls) =
     (case parse_line l of
        Inl e \<Rightarrow> Inl e
      | Inr x \<Rightarrow> (case parse_all ls of Inl e \<Rightarrow> Inl e | Inr xs \<Rightarrow> Inr (x # xs)))"

text \<open>The index lists of a slot in a dictionary (empty when the slot is not a key), and the
  indices that a list of entries gives for a slot.\<close>

definition tr_of :: "index_dict \<Rightarrow> int \<Rightarrow> int list" where
  "tr_of m d = (case map_of m d of None \<Rightarrow> [] | Some (tr, va) \<Rightarrow> tr)"

definition va_of :: "index_dict \<Rightarrow> int \<Rightarrow> int list" where
  "va_of m d = (case map_of m d of None \<Rightarrow> [] | Some (tr, va) \<Rightarrow> va)"

definition idx_of :: "(int \<times> int) list \<Rightarrow> int \<Rightarrow> int list" where
  "idx_of es d = map snd (filter (\<lambda>e. fst e = d) es)"

text \<open>The keys of the dictionary in insertion order: every slot once, in the order of first
  occurrence.\<close>

definition add_key :: "int list \<Rightarrow> int \<Rightarrow> int list" where
  "add_key ks d = (if d \<in> set ks then ks else ks @ [d])"

definition slot_keys :: "int list \<Rightarrow> int list \<Rightarrow> int list" where
  "slot_keys ks ds = foldl add_key ks ds"

text \<open>The position that Python's indexing gives for an integer in range.\<close>

definition py_pos :: "'a list \<Rightarrow> int \<Rightarrow> nat" where
  "py_pos xs i = nat (if i < 0 then int (length xs) + i else i)"

definition in_range :: "'a list \<Rightarrow> int \<Rightarrow> bool" where
  "in_range xs i \<longleftrightarrow> - int (length xs) \<le> i \<and> i < int (length xs)"

text \<open>The entries that \<open>write_indices\<close> writes, and the slots of a saved split in the order
  in which a reload meets them: first the slots with a train index, then the slots with
  validation indices only.\<close>

fun entries :: "nat \<Rightarrow> nat list list \<Rightarrow> (int \<times> int) list" where
  "entries j [] = []"
| "entries j (idxs # rest) = map (\<lambda>idx. (int j, int idx)) idxs @ entries (Suc j) rest"

definition slot_order :: "(nat list \<times> nat list) list \<Rightarrow> nat list" where
  "slot_order subsets =
     filter (\<lambda>j. fst (subsets ! j) \<noteq> []) [0..<length subsets]
     @ filter (\<lambda>j. fst (subsets ! j) = [] \<and> snd (subsets ! j) \<noteq> []) [0..<length subsets]"

text \<open>A list of keys with the number of times each is repeated.\<close>

definition keyrep :: "(int \<times> nat) list \<Rightarrow> int list" where
  "keyrep kc = concat (map (\<lambda>p. replicate (snd p) (fst p)) kc)"

section \<open>A split that partitions the indices\<close>


section \<open>Concrete inputs\<close>

text \<open>Arguments of \<^verbatim>\<open>train\<close> used at concrete inputs: accumulation factor 2, patience 2,
  at most 4 epochs, a loss logged at every batch, a scheduler present.\<close>

definition example_args :: train_args where
  "example_args =
     \<lparr>n_epochs = 4, log_interval = 1, patience = 2, gradient_accumulation = 2,
      has_scheduler = True, model_dir = ''out'', run_dir = ''run1'', domain_name = ''books''\<rparr>"

text \<open>A deterministic stand-in for \<^verbatim>\<open>random.shuffle\<close>: it reverses the list.\<close>

definition rev_shuffle :: "unit \<Rightarrow> nat list \<Rightarrow> nat list \<times> unit" where
  "rev_shuffle r xs = (rev xs, r)"

text \<open>Three loaders with 3, 5 and 2 batches; a batch is named by a number.\<close>

definition example_dls :: "nat list list" where
  "example_dls = [[1, 2, 3], [4, 5, 6, 7, 8], [9, 10]]"

text \<open>A validation evaluator whose accuracies are 0.5, 0.6, 0.55, 0.55, \<dots>\<close>

definition example_evaluate :: "nat \<Rightarrow> metrics" where
  "example_evaluate e =
     \<lparr>loss = 0, acc = (if e = 0 then 0.5 else if e = 1 then 0.6 else 0.55),
      precision = 0, recall = 0, F1 = 0\<rparr>"






text \<open>One loader with two batches.\<close>

definition two_batches :: "nat list list" where
  "two_batches = [[1, 2]]"

text \<open>A saved split of two remaining domains, the data sets of the saving run and of a run
  that lists the same domains in the other order.\<close>

definition example_subsets :: "(nat list \<times> nat list) list" where
  "example_subsets = [([3, 1, 2], [0]), ([1], [0, 2])]"

definition example_dsets :: "string list" where
  "example_dsets = [''dvd'', ''kitchen'']"

definition swapped_dsets :: "string list" where
  "swapped_dsets = [''kitchen'', ''dvd'']"

text \<open>Index files in which slot 1 does not occur and slot 2 occurs in the train file only.\<close>

definition sparse_files :: "string \<rightharpoonup> string" where
  "sparse_files =
     [train_idx_path ''saved'' ''books'' \<mapsto> write_indices 0 [[3, 1], [], [10]],
      val_idx_path ''saved'' ''books'' \<mapsto> write_indices 0 [[7], [], []]]"


section \<open>Lemmas: traces of a schedule\<close>

lemma pull_take_drop: "pull n it bs = (bs @ take n it, drop n it, length it < n)"
  by (induction n it bs rule: pull.induct) simp_all

lemma run_batches_ok:
  "log_interval a \<noteq> 0 \<Longrightarrow> run_batches a d bs i = Inr (i + length bs, batch_events a d bs i)"
  by (induction bs arbitrary: i) simp_all

lemma render_append:
  "render a i (gs1 @ gs2)
   = render a i gs1 @ render a (i + sum_list (map (\<lambda>g. length (snd g)) gs1)) gs2"
  by (induction a i gs1 rule: render.induct) (auto simp: add.assoc)

lemma consumed_append: "consumed d (xs @ ys) = consumed d xs @ consumed d ys"
  by (induction d xs rule: consumed.induct) simp_all

lemma consumed_batch_events: "consumed d' (batch_events a d bs i) = (if d' = d then bs else [])"
  by (induction bs arbitrary: i) auto

lemma consumed_render: "consumed d (render a i gs) = of_domain d gs"
  by (induction a i gs rule: render.induct)
    (auto simp: of_domain_def consumed_append consumed_batch_events)

lemma acc_groups_append:
  "acc_groups (xs @ ys) cur = acc_groups xs cur @ acc_groups ys (pending xs cur)"
  by (induction xs cur rule: acc_groups.induct) simp_all

lemma pending_append: "pending (xs @ ys) cur = pending ys (pending xs cur)"
  by (induction xs cur rule: pending.induct) simp_all

lemma acc_groups_batch_events: "acc_groups (batch_events a d bs i) cur = []"
  by (induction bs arbitrary: i cur) simp_all

lemma pending_batch_events:
  "pending (batch_events a d bs i) cur = cur @ replicate (length bs) d"
  by (induction bs arbitrary: i cur) (simp_all add: replicate_app_Cons_same)

lemma pending_render: "pending (render a i gs) [] = []"
  by (induction a i gs rule: render.induct)
    (simp_all add: pending_append pending_batch_events)

lemma acc_groups_render:
  "acc_groups (render a i gs) [] = map (\<lambda>g. replicate (length (snd g)) (fst g)) gs"
  by (induction a i gs rule: render.induct)
    (simp_all add: acc_groups_append pending_append pending_batch_events
       acc_groups_batch_events)

lemma opt_filter_batch_events:
  "filter (\<lambda>e. e = OptimizerStep) (batch_events a d bs i) = []"
  by (induction bs arbitrary: i) simp_all

lemma opt_steps_render: "opt_steps (render a i gs) = length gs"
  by (induction a i gs rule: render.induct)
    (simp_all add: opt_steps_def opt_filter_batch_events)

lemma sched_filter_batch_events:
  "filter (\<lambda>e. e = SchedulerStep) (batch_events a d bs i) = []"
  by (induction bs arbitrary: i) simp_all

lemma sched_steps_render:
  "sched_steps (render a i gs) = (if has_scheduler a then length gs else 0)"
  by (induction a i gs rule: render.induct)
    (simp_all add: sched_steps_def sched_filter_batch_events)

lemma zero_filter_batch_events:
  "filter (\<lambda>e. e = ZeroGrad) (batch_events a d bs i) = []"
  by (induction bs arbitrary: i) simp_all

lemma zero_grads_render: "zero_grads (render a i gs) = length gs"
  by (induction a i gs rule: render.induct)
    (simp_all add: zero_grads_def zero_filter_batch_events)

lemma divisors_append: "divisors (xs @ ys) = divisors xs @ divisors ys"
  by (induction xs rule: divisors.induct) simp_all

lemma divisors_batch_events:
  "divisors (batch_events a d bs i) = replicate (length bs) (gradient_accumulation a)"
  by (induction bs arbitrary: i) simp_all

lemma divisors_render:
  "divisors (render a i gs)
   = replicate (sum_list (map (\<lambda>g. length (snd g)) gs)) (gradient_accumulation a)"
  by (induction a i gs rule: render.induct)
    (simp_all add: divisors_append divisors_batch_events replicate_add)

lemma loss_logs_append: "loss_logs (xs @ ys) = loss_logs xs @ loss_logs ys"
  by (induction xs rule: loss_logs.induct) simp_all

lemma loss_logs_batch_events:
  "loss_logs (batch_events a d bs i)
   = filter (\<lambda>k. int k mod log_interval a = 0) [i..<i + length bs]"
proof (induction bs arbitrary: i)
  case Nil
  then show ?case by simp
next
  case (Cons b bs)
  have "[i..<i + length (b # bs)] = i # [Suc i..<Suc i + length bs]"
    by (simp add: upt_conv_Cons del: upt_Suc)
  then show ?case using Cons.IH[of "Suc i"] by simp
qed

lemma loss_logs_render:
  "loss_logs (render a i gs)
   = filter (\<lambda>k. int k mod log_interval a = 0)
       [i..<i + sum_list (map (\<lambda>g. length (snd g)) gs)]"
proof (induction a i gs rule: render.induct)
  case (1 a i)
  then show ?case by simp
next
  case (2 a i d bs gs)
  let ?n = "sum_list (map (\<lambda>g. length (snd g)) gs)"
  let ?p = "\<lambda>k. int k mod log_interval a = 0"
  have A: "[i..<i + length bs + ?n] = [i..<i + length bs] @ [i + length bs..<i + length bs + ?n]"
    by (rule upt_add_eq_append) simp
  have "loss_logs (render a i ((d, bs) # gs))
        = filter ?p [i..<i + length bs] @ filter ?p [i + length bs..<i + length bs + ?n]"
    using "2.IH" by (simp add: loss_logs_append loss_logs_batch_events)
  also have "\<dots> = filter ?p [i..<i + length bs + ?n]"
    by (simp only: A filter_append)
  finally show ?case by (simp add: add.assoc)
qed

lemma evaluated_append: "evaluated (xs @ ys) = evaluated xs @ evaluated ys"
  by (induction xs rule: evaluated.induct) simp_all

lemma saved_append: "saved (xs @ ys) = saved xs @ saved ys"
  by (induction xs rule: saved.induct) simp_all

lemma val_logs_append: "val_logs (xs @ ys) = val_logs xs @ val_logs ys"
  by (induction xs rule: val_logs.induct) simp_all

lemma evaluated_batch_events: "evaluated (batch_events a d bs i) = []"
  by (induction bs arbitrary: i) simp_all

lemma saved_batch_events: "saved (batch_events a d bs i) = []"
  by (induction bs arbitrary: i) simp_all

lemma val_logs_batch_events: "val_logs (batch_events a d bs i) = []"
  by (induction bs arbitrary: i) simp_all

lemma evaluated_render: "evaluated (render a i gs) = []"
  by (induction a i gs rule: render.induct) (simp_all add: evaluated_append evaluated_batch_events)

lemma saved_render: "saved (render a i gs) = []"
  by (induction a i gs rule: render.induct) (simp_all add: saved_append saved_batch_events)

lemma val_logs_render: "val_logs (render a i gs) = []"
  by (induction a i gs rule: render.induct) (simp_all add: val_logs_append val_logs_batch_events)

section \<open>Lemmas: the scheduler\<close>

lemma visit_ok:
  assumes "1 \<le> gradient_accumulation a" "log_interval a \<noteq> 0"
  shows "visit a d st = Inr (visit_state a d st, render a (batch_i st) (visit_groups a d st))"
proof (cases "dl_iters st ! d = []")
  case True
  with assms show ?thesis
    by (simp add: visit_def pull_take_drop visit_state_def visit_groups_def)
next
  case False
  then have "take (nat (gradient_accumulation a)) (dl_iters st ! d) \<noteq> []"
    using assms(1) by (cases "dl_iters st ! d") (auto simp: take_Cons')
  with False assms show ?thesis
    by (simp add: visit_def pull_take_drop visit_state_def visit_groups_def run_batches_ok Let_def)
qed

lemma sum_list_map_update:
  "d < length xs \<Longrightarrow> sum_list (map f (xs[d := y])) + f (xs ! d) = sum_list (map f xs) + (f y :: nat)"
proof (induction xs arbitrary: d)
  case Nil
  then show ?case by simp
next
  case (Cons x xs)
  then show ?case by (cases d) auto
qed

lemma sum_list_update_nat:
  "d < length xs \<Longrightarrow> sum_list (xs[d := y]) + xs ! d = sum_list xs + (y :: nat)"
  using sum_list_map_update[of d xs "\<lambda>x. x" y] by simp

lemma cdiv_step:
  assumes "1 \<le> G"
  shows "(if L = 0 then 0 else 1) + cdiv (L - G) G = cdiv L G"
proof (cases "L = 0")
  case True
  with assms show ?thesis by (simp add: cdiv_def)
next
  case False
  show ?thesis
  proof (cases "L < G")
    case True
    have "L + G - 1 = G + (L - 1)" using False by simp
    then have "cdiv L G = (G + (L - 1)) div G"
      by (simp only: cdiv_def)
    also have "\<dots> = (L - 1) div G + 1"
      by (subst div_add_self1) (use assms in auto)
    finally have "cdiv L G = (L - 1) div G + 1" .
    moreover have "(L - 1) div G = 0" using True by simp
    ultimately show ?thesis using True False assms by (simp add: cdiv_def)
  next
    case ge: False
    then have "L + G - 1 = G + (L - G + G - 1)" using assms by simp
    then have "cdiv L G = (G + (L - G + G - 1)) div G"
      by (simp only: cdiv_def)
    also have "\<dots> = (L - G + G - 1) div G + 1"
      by (subst div_add_self1) (use assms in auto)
    finally have "cdiv L G = cdiv (L - G) G + 1"
      by (simp only: cdiv_def)
    with False show ?thesis by simp
  qed
qed

lemma of_domain_simps:
  "of_domain d [] = []"
  "of_domain d ((d', bs) # gs) = (if d' = d then bs @ of_domain d gs else of_domain d gs)"
  "of_domain d (gs1 @ gs2) = of_domain d gs1 @ of_domain d gs2"
  by (simp_all add: of_domain_def)

lemma sched_rel_same:
  "dl_iters st' = dl_iters st \<Longrightarrow> batch_i st' = batch_i st \<Longrightarrow> sched_rel a st [] st'"
  by (simp add: sched_rel_def of_domain_simps steps_left_def)

lemma sched_rel_trans:
  assumes r1: "sched_rel a st gs1 st1" and r2: "sched_rel a st1 gs2 st2"
  shows "sched_rel a st (gs1 @ gs2) st2"
proof -
  have len1: "length (dl_iters st1) = length (dl_iters st)" using r1 by (simp add: sched_rel_def)
  have len2: "length (dl_iters st2) = length (dl_iters st1)" using r2 by (simp add: sched_rel_def)
  have dom: "of_domain d (gs1 @ gs2) @ dl_iters st2 ! d = dl_iters st ! d"
    if "d < length (dl_iters st)" for d
  proof -
    have "of_domain d gs1 @ dl_iters st1 ! d = dl_iters st ! d"
      using r1 that by (simp add: sched_rel_def)
    moreover have "of_domain d gs2 @ dl_iters st2 ! d = dl_iters st1 ! d"
      using r2 that len1 by (simp add: sched_rel_def)
    ultimately show ?thesis by (simp add: of_domain_simps)
  qed
  have grp: "fst g < length (dl_iters st) \<and> snd g \<noteq> []
                     \<and> length (snd g) \<le> nat (gradient_accumulation a)"
    if "g \<in> set (gs1 @ gs2)" for g
  proof (cases "g \<in> set gs1")
    case True
    then show ?thesis using r1 by (simp add: sched_rel_def)
  next
    case False
    then have "g \<in> set gs2" using that by simp
    then show ?thesis using r2 len1 by (simp add: sched_rel_def)
  qed
  have cnt: "batch_i st2 = batch_i st + sum_list (map (\<lambda>g. length (snd g)) (gs1 @ gs2))"
    using r1 r2 by (simp add: sched_rel_def)
  have tot: "batch_i st2 + sum_list (map length (dl_iters st2))
       = batch_i st + sum_list (map length (dl_iters st))"
    using r1 r2 by (simp add: sched_rel_def)
  have stp: "length (gs1 @ gs2) + steps_left a st2 = steps_left a st"
    using r1 r2 by (simp add: sched_rel_def)
  have len: "length (dl_iters st2) = length (dl_iters st)" using len1 len2 by simp
  show ?thesis
    unfolding sched_rel_def
    using len dom grp cnt tot stp by (intro conjI allI impI ballI) simp_all
qed

lemma sched_rel_visit:
  assumes g: "1 \<le> gradient_accumulation a" and d: "d < length (dl_iters st)"
  shows "sched_rel a st (visit_groups a d st) (visit_state a d st)"
proof -
  let ?G = "nat (gradient_accumulation a)"
  let ?it = "dl_iters st ! d"
  have G: "1 \<le> ?G" using g by simp
  have c: "length (visit_groups a d st) + cdiv (length ?it - ?G) ?G = cdiv (length ?it) ?G"
    using cdiv_step[OF G, of "length ?it"]
    by (cases "?it = []") (simp_all add: visit_groups_def)
  have s: "steps_left a (visit_state a d st) + cdiv (length ?it) ?G
           = steps_left a st + cdiv (length ?it - ?G) ?G"
    using sum_list_map_update[OF d, of "\<lambda>it. cdiv (length it) ?G" "drop ?G ?it"]
    by (simp add: steps_left_def visit_state_def)
  have "length (visit_groups a d st) + steps_left a (visit_state a d st) = steps_left a st"
    using c s by arith
  moreover have "\<forall>d' < length (dl_iters st).
      of_domain d' (visit_groups a d st) @ dl_iters (visit_state a d st) ! d' = dl_iters st ! d'"
    using d by (auto simp: visit_groups_def visit_state_def of_domain_simps nth_list_update)
  moreover have "\<forall>g \<in> set (visit_groups a d st). fst g < length (dl_iters st) \<and> snd g \<noteq> []
                     \<and> length (snd g) \<le> ?G"
    using d G by (auto simp: visit_groups_def)
  moreover have "batch_i (visit_state a d st)
      = batch_i st + sum_list (map (\<lambda>g. length (snd g)) (visit_groups a d st))"
    by (simp add: visit_groups_def visit_state_def)
  moreover have "batch_i (visit_state a d st) + sum_list (map length (dl_iters (visit_state a d st)))
       = batch_i st + sum_list (map length (dl_iters st))"
    using sum_list_map_update[OF d, of length "drop ?G ?it"]
    by (simp add: visit_state_def)
  ultimately show ?thesis
    by (simp add: sched_rel_def visit_state_def)
qed

lemma sum_le_length: "(\<forall>x \<in> set xs. x \<le> (1::nat)) \<Longrightarrow> sum_list xs \<le> length xs"
  by (induction xs) auto

lemma sum_ge_length_all_one:
  "(\<forall>x \<in> set xs. x \<le> (1::nat)) \<Longrightarrow> length xs \<le> sum_list xs \<Longrightarrow> \<forall>x \<in> set xs. x = 1"
proof (induction xs)
  case Nil
  then show ?case by simp
next
  case (Cons x xs)
  have "sum_list xs \<le> length xs" using Cons.prems(1) by (simp add: sum_le_length)
  with Cons.prems have "x = 1" "length xs \<le> sum_list xs" by auto
  with Cons show ?case by simp
qed

lemma flags_ok_set: "flags_ok st \<Longrightarrow> \<forall>x \<in> set (finished st). x \<le> 1"
  by (auto simp: flags_ok_def in_set_conv_nth)

lemma flags_ok_sum: "flags_ok st \<Longrightarrow> sum_list (finished st) \<le> length (finished st)"
  by (rule sum_le_length) (rule flags_ok_set)

lemma flags_ok_visit:
  assumes "flags_ok st" "d < length (dl_iters st)"
  shows "flags_ok (visit_state a d st)"
  using assms by (auto simp: flags_ok_def visit_state_def nth_list_update)

lemma visit_state_finished:
  assumes "flags_ok st" "d < length (dl_iters st)" "finished st ! d = 1"
  shows "visit_state a d st = st"
proof -
  have "dl_iters st ! d = []" using assms by (simp add: flags_ok_def)
  moreover have "(finished st)[d := 1] = finished st"
    using assms by (metis list_update_id)
  moreover have "(dl_iters st)[d := dl_iters st ! d] = dl_iters st"
    by (rule list_update_id)
  ultimately show ?thesis by (simp add: visit_state_def)
qed

lemma work_left_visit:
  assumes g: "1 \<le> gradient_accumulation a" and ok: "flags_ok st" and d: "d < length (dl_iters st)"
  shows "work_left (visit_state a d st) \<le> work_left st"
    and "finished st ! d = 0 \<Longrightarrow> work_left (visit_state a d st) < work_left st"
proof -
  let ?G = "nat (gradient_accumulation a)"
  let ?it = "dl_iters st ! d"
  have G: "1 \<le> ?G" using g by simp
  have len: "length (finished st) = length (dl_iters st)" using ok by (simp add: flags_ok_def)
  have fd: "finished st ! d \<le> 1" using ok d by (simp add: flags_ok_def)
  have s1: "sum_list (map length ((dl_iters st)[d := drop ?G ?it])) + length ?it
        = sum_list (map length (dl_iters st)) + (length ?it - ?G)"
    using sum_list_map_update[OF d, of length "drop ?G ?it"] by simp
  have s2: "sum_list ((finished st)[d := 1]) + finished st ! d = sum_list (finished st) + 1"
    using sum_list_update_nat[of d "finished st" 1] d len by simp
  have b1: "sum_list (finished st) \<le> length (finished st)" using flags_ok_sum[OF ok] .
  have b2: "sum_list ((finished st)[d := 1]) \<le> length (finished st)"
    if "length ?it < ?G"
    using flags_ok_sum[OF flags_ok_visit[OF ok d, of a]] that by (simp add: visit_state_def)
  show "work_left (visit_state a d st) \<le> work_left st"
  proof (cases "length ?it < ?G")
    case True
    then show ?thesis using s1 s2 fd b1 b2 by (simp add: work_left_def visit_state_def)
  next
    case False
    then show ?thesis using s1 by (simp add: work_left_def visit_state_def)
  qed
  show "work_left (visit_state a d st) < work_left st" if "finished st ! d = 0"
  proof (cases "length ?it < ?G")
    case True
    then show ?thesis using s1 s2 that b1 b2 by (simp add: work_left_def visit_state_def)
  next
    case False
    then show ?thesis using s1 G by (simp add: work_left_def visit_state_def)
  qed
qed

section \<open>Lemmas: one pass and one epoch\<close>

lemma visit_all_ok:
  assumes g: "1 \<le> gradient_accumulation a" and li: "log_interval a \<noteq> 0"
  shows "flags_ok st \<Longrightarrow> \<forall>d \<in> set ds. d < length (dl_iters st) \<Longrightarrow>
    \<exists>gs st'. visit_all a ds st = Inr (st', render a (batch_i st) gs)
       \<and> sched_rel a st gs st' \<and> flags_ok st'
       \<and> work_left st' \<le> work_left st
       \<and> ((\<exists>d \<in> set ds. finished st ! d = 0) \<longrightarrow> work_left st' < work_left st)
       \<and> dl_idx st' = dl_idx st \<and> rng st' = rng st"
proof (induction ds arbitrary: st)
  case Nil
  have "sched_rel a st [] st" by (rule sched_rel_same) simp_all
  with Nil.prems(1) show ?case by (intro exI[of _ "[]"] exI[of _ st]) simp
next
  case (Cons d ds)
  let ?st1 = "visit_state a d st"
  let ?g1 = "visit_groups a d st"
  have d: "d < length (dl_iters st)" using Cons.prems(2) by simp
  have v: "visit a d st = Inr (?st1, render a (batch_i st) ?g1)"
    by (rule visit_ok[OF g li])
  have r1: "sched_rel a st ?g1 ?st1" by (rule sched_rel_visit[OF g d])
  have ok1: "flags_ok ?st1" by (rule flags_ok_visit[OF Cons.prems(1) d])
  have len1: "length (dl_iters ?st1) = length (dl_iters st)" by (simp add: visit_state_def)
  have "\<forall>d \<in> set ds. d < length (dl_iters ?st1)" using Cons.prems(2) len1 by simp
  from Cons.IH[OF ok1 this] obtain gs2 st2 where
    va: "visit_all a ds ?st1 = Inr (st2, render a (batch_i ?st1) gs2)"
    and r2: "sched_rel a ?st1 gs2 st2" and ok2: "flags_ok st2"
    and w2: "work_left st2 \<le> work_left ?st1"
    and s2: "(\<exists>d \<in> set ds. finished ?st1 ! d = 0) \<longrightarrow> work_left st2 < work_left ?st1"
    and i2: "dl_idx st2 = dl_idx ?st1" "rng st2 = rng ?st1"
    by blast
  have bi: "batch_i ?st1 = batch_i st + sum_list (map (\<lambda>g. length (snd g)) ?g1)"
    using r1 by (simp add: sched_rel_def)
  have tr: "render a (batch_i st) ?g1 @ render a (batch_i ?st1) gs2
            = render a (batch_i st) (?g1 @ gs2)"
    by (simp add: render_append bi)
  have res: "visit_all a (d # ds) st = Inr (st2, render a (batch_i st) (?g1 @ gs2))"
    using v va tr by simp
  have w1: "work_left ?st1 \<le> work_left st" by (rule work_left_visit(1)[OF g Cons.prems(1) d])
  have strict: "work_left st2 < work_left st" if ex: "\<exists>d' \<in> set (d # ds). finished st ! d' = 0"
  proof (cases "finished st ! d = 0")
    case True
    then have "work_left ?st1 < work_left st" by (rule work_left_visit(2)[OF g Cons.prems(1) d])
    with w2 show ?thesis by simp
  next
    case False
    moreover have "finished st ! d \<le> 1" using Cons.prems(1) d by (simp add: flags_ok_def)
    ultimately have "finished st ! d = 1" by simp
    then have same: "?st1 = st" by (rule visit_state_finished[OF Cons.prems(1) d])
    from ex False have "\<exists>d' \<in> set ds. finished st ! d' = 0" by auto
    then show ?thesis using s2 same by simp
  qed
  have idx: "dl_idx st2 = dl_idx st" "rng st2 = rng st"
    using i2 by (simp_all add: visit_state_def)
  show ?case
    using res sched_rel_trans[OF r1 r2] ok2 w1 w2 strict idx
    by (intro exI[of _ "?g1 @ gs2"] exI[of _ st2]) auto
qed

lemma sum_all_one: "(\<forall>x \<in> set xs. x = (1::nat)) \<Longrightarrow> sum_list xs = length xs"
  by (induction xs) auto

lemma unfinished_exists:
  assumes ok: "flags_ok st" and lt: "sum_list (finished st) < length (dl_iters st)"
  shows "\<exists>d < length (dl_iters st). finished st ! d = 0"
proof (rule ccontr)
  assume neg: "\<not> (\<exists>d < length (dl_iters st). finished st ! d = 0)"
  have len: "length (finished st) = length (dl_iters st)" using ok by (simp add: flags_ok_def)
  have "\<forall>x \<in> set (finished st). x = 1"
  proof
    fix x assume "x \<in> set (finished st)"
    then obtain d where "d < length (finished st)" "finished st ! d = x"
      by (auto simp: in_set_conv_nth)
    moreover have "x \<le> 1" using flags_ok_set[OF ok] \<open>x \<in> set (finished st)\<close> by simp
    ultimately show "x = 1" using neg len by (cases "x = 0") auto
  qed
  then have "sum_list (finished st) = length (finished st)"
    by (rule sum_all_one)
  with lt len show False by simp
qed

lemma all_finished:
  assumes ok: "flags_ok st" and ge: "\<not> sum_list (finished st) < length (dl_iters st)"
  shows "finished st = replicate (length (dl_iters st)) 1"
    and "dl_iters st = replicate (length (dl_iters st)) []"
proof -
  have len: "length (finished st) = length (dl_iters st)" using ok by (simp add: flags_ok_def)
  have one: "\<forall>x \<in> set (finished st). x = 1"
    using sum_ge_length_all_one[OF flags_ok_set[OF ok]] ge len by simp
  then show f: "finished st = replicate (length (dl_iters st)) 1"
    using len by (metis replicate_eqI)
  have "\<forall>d < length (dl_iters st). dl_iters st ! d = []"
    using ok f by (metis flags_ok_def nth_replicate)
  then show "dl_iters st = replicate (length (dl_iters st)) []"
    by (intro nth_equalityI) simp_all
qed

lemma epoch_loop_ok:
  assumes perm: "\<And>r xs. mset (fst (shuffle r xs)) = mset xs"
    and g: "1 \<le> gradient_accumulation a" and li: "log_interval a \<noteq> 0"
  shows "flags_ok st \<Longrightarrow> set (dl_idx st) = {0..<length (dl_iters st)} \<Longrightarrow>
    work_left st \<le> fuel \<Longrightarrow>
    \<exists>gs st'. epoch_loop fuel shuffle a st = Some (Inr (st', render a (batch_i st) gs))
       \<and> sched_rel a st gs st' \<and> flags_ok st'
       \<and> \<not> sum_list (finished st') < length (dl_iters st')"
proof (induction fuel arbitrary: st)
  case 0
  have len: "length (finished st) = length (dl_iters st)"
    using "0.prems"(1) by (simp add: flags_ok_def)
  have "sum_list (finished st) \<le> length (finished st)" by (rule flags_ok_sum[OF "0.prems"(1)])
  with "0.prems"(3) len have fin0: "\<not> sum_list (finished st) < length (dl_iters st)"
    by (simp add: work_left_def)
  have "sched_rel a st [] st" by (rule sched_rel_same) simp_all
  with fin0 "0.prems"(1) show ?case
    by (intro exI[of _ "[]"] exI[of _ st]) simp
next
  case (Suc fuel)
  show ?case
  proof (cases "sum_list (finished st) < length (dl_iters st)")
    case False
    have "sched_rel a st [] st" by (rule sched_rel_same) simp_all
    with False Suc.prems(1) show ?thesis
      by (intro exI[of _ "[]"] exI[of _ st]) simp
  next
    case True
    obtain idx r where sh: "shuffle (rng st) (dl_idx st) = (idx, r)"
      by (cases "shuffle (rng st) (dl_idx st)")
    let ?st0 = "st\<lparr>dl_idx := idx, rng := r\<rparr>"
    have "mset idx = mset (dl_idx st)" using perm[of "rng st" "dl_idx st"] sh by simp
    then have sidx: "set idx = {0..<length (dl_iters st)}"
      using Suc.prems(2) by (metis mset_eq_setD)
    have ok0: "flags_ok ?st0" using Suc.prems(1) by (simp add: flags_ok_def)
    have rng0: "\<forall>d \<in> set idx. d < length (dl_iters ?st0)" using sidx by simp
    from visit_all_ok[OF g li ok0 rng0] obtain gs1 st1 where
      va: "visit_all a idx ?st0 = Inr (st1, render a (batch_i ?st0) gs1)"
      and r1: "sched_rel a ?st0 gs1 st1" and ok1: "flags_ok st1"
      and s1: "(\<exists>d \<in> set idx. finished ?st0 ! d = 0) \<longrightarrow> work_left st1 < work_left ?st0"
      and i1: "dl_idx st1 = dl_idx ?st0"
      by blast
    obtain d where "d < length (dl_iters st)" "finished st ! d = 0"
      using unfinished_exists[OF Suc.prems(1) True] by blast
    then have "\<exists>d \<in> set idx. finished ?st0 ! d = 0" using sidx by auto
    with s1 have "work_left st1 < work_left ?st0" by simp
    moreover have "work_left ?st0 = work_left st" by (simp add: work_left_def)
    ultimately have wl: "work_left st1 \<le> fuel" using Suc.prems(3) by simp
    have len1: "length (dl_iters st1) = length (dl_iters st)"
      using r1 by (simp add: sched_rel_def)
    have idx1: "set (dl_idx st1) = {0..<length (dl_iters st1)}"
      using i1 sidx len1 by simp
    from Suc.IH[OF ok1 idx1 wl] obtain gs2 st2 where
      el: "epoch_loop fuel shuffle a st1 = Some (Inr (st2, render a (batch_i st1) gs2))"
      and r2: "sched_rel a st1 gs2 st2" and ok2: "flags_ok st2"
      and fin: "\<not> sum_list (finished st2) < length (dl_iters st2)"
      by blast
    have r1': "sched_rel a st gs1 st1" using r1 by (simp add: sched_rel_def steps_left_def)
    have bi: "batch_i st1 = batch_i st + sum_list (map (\<lambda>g. length (snd g)) gs1)"
      using r1' by (simp add: sched_rel_def)
    have tr: "render a (batch_i st) gs1 @ render a (batch_i st1) gs2
              = render a (batch_i st) (gs1 @ gs2)"
      by (simp add: render_append bi)
    have "epoch_loop (Suc fuel) shuffle a st = Some (Inr (st2, render a (batch_i st) (gs1 @ gs2)))"
      using True sh va el tr by simp
    then show ?thesis
      using sched_rel_trans[OF r1' r2] ok2 fin
      by (intro exI[of _ "gs1 @ gs2"] exI[of _ st2]) simp
  qed
qed

lemma cdiv_0: "1 \<le> G \<Longrightarrow> cdiv 0 G = 0"
  by (simp add: cdiv_def)

text \<open>An epoch with a positive accumulation factor ends, and its trace is that of a schedule
  which takes every loader's batches in order, in groups of at most \<open>g\<close> from one domain.\<close>

lemma run_epoch_schedule:
  assumes perm: "\<And>r xs. mset (fst (shuffle r xs)) = mset xs"
    and g: "1 \<le> gradient_accumulation a" and li: "log_interval a \<noteq> 0"
    and fuel: "sum_list (map length train_dls) + length train_dls \<le> fuel"
  shows "\<exists>gs st'. run_epoch fuel shuffle a train_dls r = Some (Inr (st', render a 0 gs))
       \<and> (\<forall>d < length train_dls. of_domain d gs = train_dls ! d)
       \<and> (\<forall>g \<in> set gs. fst g < length train_dls \<and> snd g \<noteq> []
                     \<and> length (snd g) \<le> nat (gradient_accumulation a))
       \<and> length gs = sum_list (map (\<lambda>it. cdiv (length it) (nat (gradient_accumulation a))) train_dls)
       \<and> sum_list (map (\<lambda>g. length (snd g)) gs) = sum_list (map length train_dls)
       \<and> dl_iters st' = replicate (length train_dls) []
       \<and> finished st' = replicate (length train_dls) 1
       \<and> batch_i st' = sum_list (map length train_dls)"
proof -
  let ?n = "length train_dls"
  let ?st = "\<lparr>dl_iters = train_dls, dl_idx = [0..<?n],
        finished = replicate ?n 0, batch_i = 0, rng = r\<rparr>"
  have ok: "flags_ok ?st" by (simp add: flags_ok_def)
  have idx: "set (dl_idx ?st) = {0..<length (dl_iters ?st)}" by simp
  have wl: "work_left ?st \<le> fuel" using fuel by (simp add: work_left_def sum_list_replicate)
  from epoch_loop_ok[where shuffle = shuffle, OF perm g li ok idx wl] obtain gs st' where
    el: "epoch_loop fuel shuffle a ?st = Some (Inr (st', render a (batch_i ?st) gs))"
    and rel: "sched_rel a ?st gs st'" and ok': "flags_ok st'"
    and fin: "\<not> sum_list (finished st') < length (dl_iters st')"
    by blast
  have len: "length (dl_iters st') = ?n" using rel by (simp add: sched_rel_def)
  have f1: "finished st' = replicate ?n 1" using all_finished(1)[OF ok' fin] len by simp
  have e1: "dl_iters st' = replicate ?n []" using all_finished(2)[OF ok' fin] len by simp
  have G: "1 \<le> nat (gradient_accumulation a)" using g by simp
  have sl: "steps_left a st' = 0"
    by (simp add: steps_left_def e1 cdiv_0[OF G])
  have dom: "\<forall>d < ?n. of_domain d gs = train_dls ! d"
    using rel e1 by (simp add: sched_rel_def)
  have grp: "\<forall>g \<in> set gs. fst g < ?n \<and> snd g \<noteq> []
                     \<and> length (snd g) \<le> nat (gradient_accumulation a)"
    using rel by (simp add: sched_rel_def)
  have stp: "length gs + steps_left a st' = steps_left a ?st"
    using rel by (simp add: sched_rel_def)
  have "steps_left a ?st
        = sum_list (map (\<lambda>it. cdiv (length it) (nat (gradient_accumulation a))) train_dls)"
    by (simp add: steps_left_def)
  with stp sl have cnt:
    "length gs = sum_list (map (\<lambda>it. cdiv (length it) (nat (gradient_accumulation a))) train_dls)"
    by simp
  have bi: "batch_i st' = sum_list (map length train_dls)"
    using rel e1 by (simp add: sched_rel_def sum_list_replicate)
  have tot: "sum_list (map (\<lambda>g. length (snd g)) gs) = sum_list (map length train_dls)"
    using rel bi by (simp add: sched_rel_def sum_list_replicate)
  have "run_epoch fuel shuffle a train_dls r = Some (Inr (st', render a 0 gs))"
    using el by (simp add: run_epoch_def)
  then show ?thesis
    using dom grp cnt tot e1 f1 bi by blast
qed

section \<open>Lemmas: rounding up\<close>

lemma ceil_cdiv_nat:
  assumes G: "0 < G"
  shows "\<lceil>real n / real G\<rceil> = int (cdiv n G)"
proof -
  let ?q = "(n + G - 1) div G"
  have d: "?q * G + (n + G - 1) mod G = n + G - 1" by simp
  have m: "(n + G - 1) mod G < G" using G by simp
  have up: "n \<le> ?q * G" using d m by linarith
  have lo: "?q * G < n + G" using d G by linarith
  have "\<lceil>real n / real G\<rceil> = int ?q"
  proof (rule ceiling_unique)
    have "real n \<le> real (?q * G)" using up by (simp only: of_nat_le_iff)
    then show "real n / real G \<le> of_int (int ?q)"
      using G by (simp add: pos_divide_le_eq)
    have "real (?q * G) < real (n + G)" using lo by (simp only: of_nat_less_iff)
    then have "(real ?q - 1) * real G < real n" by (simp add: algebra_simps)
    then show "of_int (int ?q) - 1 < real n / real G"
      using G by (simp add: pos_less_divide_eq)
  qed
  then show ?thesis by (simp add: cdiv_def)
qed

lemma ceil_cdiv:
  assumes "1 \<le> g"
  shows "nat \<lceil>real n / real_of_int g\<rceil> = cdiv n (nat g)"
proof -
  have "real_of_int g = real (nat g)" using assms by simp
  then show ?thesis using ceil_cdiv_nat[of "nat g" n] assms by simp
qed

section \<open>Lemmas: the loop over the epochs\<close>

lemma saved_set: "e \<in> set (saved ev) \<longleftrightarrow> (\<exists>p. TorchSave p e \<in> set ev)"
  by (induction ev rule: saved.induct) auto

lemma torch_save_render: "TorchSave p e \<notin> set (render a i gs)"
  using saved_set[of e "render a i gs"] by (simp add: saved_render)

lemma train_loop_ctl:
  assumes perm: "\<And>r xs. mset (fst (shuffle r xs)) = mset xs"
    and g: "1 \<le> gradient_accumulation a" and li: "log_interval a \<noteq> 0"
    and fuel: "sum_list (map length train_dls) + length train_dls \<le> fuel"
  shows "k = nat (n_epochs a - int (epoch_counter st)) \<Longrightarrow>
    \<exists>st' ev. train_loop fuel shuffle evaluate a train_dls st = Some (Inr (st', ev))
      \<and> (evaluated ev, saved ev, best_acc st', patience_counter st', epoch_counter st')
          = ctl (patience a) (\<lambda>e. acc (evaluate e)) k
              (best_acc st) (patience_counter st) (epoch_counter st)
      \<and> val_logs ev = map evaluate (saved ev)
      \<and> ckpts st' = (if saved ev = [] then ckpts st
                     else (ckpts st)(ckpt_path a \<mapsto> (domain_name a, last (saved ev))))
      \<and> loss_logs ev = concat (replicate (length (evaluated ev))
                                  (epoch_logs a (sum_list (map length train_dls))))
      \<and> (\<forall>p e. TorchSave p e \<in> set ev \<longrightarrow> p = ckpt_path a)"
proof (induction k arbitrary: st)
  case 0
  then have "\<not> int (epoch_counter st) < n_epochs a" by simp
  then have "train_loop fuel shuffle evaluate a train_dls st = Some (Inr (st, []))"
    by (subst train_loop.simps) simp
  then show ?case by simp
next
  case (Suc k)
  let ?e = "epoch_counter st"
  let ?m = "evaluate ?e"
  let ?n = "sum_list (map length train_dls)"
  have lt: "int ?e < n_epochs a" using Suc.prems by simp
  from run_epoch_schedule[where shuffle = shuffle, OF perm g li fuel, of "t_rng st"]
  obtain gs es where
    run: "run_epoch fuel shuffle a train_dls (t_rng st) = Some (Inr (es, render a 0 gs))"
    and tot: "sum_list (map (\<lambda>g. length (snd g)) gs) = ?n"
    by blast
  let ?ev1 = "render a 0 gs"
  have p1: "evaluated ?ev1 = []" "saved ?ev1 = []" "val_logs ?ev1 = []"
    "loss_logs ?ev1 = epoch_logs a ?n"
    by (simp_all add: evaluated_render saved_render val_logs_render loss_logs_render tot
        epoch_logs_def)
  have ts1: "\<forall>p e. TorchSave p e \<notin> set ?ev1" by (simp add: torch_save_render)
  let ?st0 = "st\<lparr>t_rng := rng es\<rparr>"
  show ?case
  proof (cases "acc ?m > best_acc st")
    case True
    let ?st1 = "?st0\<lparr>best_acc := acc ?m,
            ckpts := (ckpts ?st0)(ckpt_path a \<mapsto> (domain_name a, ?e)),
            patience_counter := 0, epoch_counter := ?e + 1\<rparr>"
    have k: "k = nat (n_epochs a - int (epoch_counter ?st1))" using Suc.prems by simp
    from Suc.IH[OF k] obtain st' ev3 where
      tl: "train_loop fuel shuffle evaluate a train_dls ?st1 = Some (Inr (st', ev3))"
      and c: "(evaluated ev3, saved ev3, best_acc st', patience_counter st', epoch_counter st')
          = ctl (patience a) (\<lambda>e. acc (evaluate e)) k (acc ?m) 0 (Suc ?e)"
      and v: "val_logs ev3 = map evaluate (saved ev3)"
      and f: "ckpts st' = (if saved ev3 = [] then ckpts ?st1
                     else (ckpts ?st1)(ckpt_path a \<mapsto> (domain_name a, last (saved ev3))))"
      and l: "loss_logs ev3 = concat (replicate (length (evaluated ev3)) (epoch_logs a ?n))"
      and t: "\<forall>p e. TorchSave p e \<in> set ev3 \<longrightarrow> p = ckpt_path a"
      by auto
    let ?ev = "?ev1 @ [Evaluate ?e] @ [TorchSave (ckpt_path a) ?e, LogValidation ?m] @ ev3"
    have res: "train_loop fuel shuffle evaluate a train_dls st = Some (Inr (st', ?ev))"
      using lt run True tl
      by (subst train_loop.simps) (simp add: after_epoch_def Let_def)
    have "(evaluated ?ev, saved ?ev, best_acc st', patience_counter st', epoch_counter st')
          = ctl (patience a) (\<lambda>e. acc (evaluate e)) (Suc k)
              (best_acc st) (patience_counter st) ?e"
      using True c[symmetric] by (simp add: evaluated_append saved_append p1)
    moreover have "val_logs ?ev = map evaluate (saved ?ev)"
      using v by (simp add: val_logs_append saved_append p1)
    moreover have "ckpts st' = (if saved ?ev = [] then ckpts st
                     else (ckpts st)(ckpt_path a \<mapsto> (domain_name a, last (saved ?ev))))"
      using f by (simp add: saved_append p1)
    moreover have "loss_logs ?ev = concat (replicate (length (evaluated ?ev)) (epoch_logs a ?n))"
      using l by (simp add: loss_logs_append evaluated_append p1)
    moreover have "\<forall>p e. TorchSave p e \<in> set ?ev \<longrightarrow> p = ckpt_path a"
      using t ts1 by auto
    ultimately show ?thesis using res by blast
  next
    case False
    show ?thesis
    proof (cases "patience_counter st + 1 = patience a")
      case True
      let ?st1 = "?st0\<lparr>patience_counter := patience_counter st + 1\<rparr>"
      let ?ev = "?ev1 @ [Evaluate ?e]"
      have res: "train_loop fuel shuffle evaluate a train_dls st = Some (Inr (?st1, ?ev))"
        using lt run False True
        by (subst train_loop.simps) (simp add: after_epoch_def Let_def)
      show ?thesis
        unfolding res using False True ts1
        by (intro exI[of _ ?st1] exI[of _ ?ev])
          (simp add: evaluated_append saved_append val_logs_append loss_logs_append p1)
    next
      case np: False
      let ?st1 = "?st0\<lparr>patience_counter := patience_counter st + 1, epoch_counter := ?e + 1\<rparr>"
      have k: "k = nat (n_epochs a - int (epoch_counter ?st1))" using Suc.prems by simp
      from Suc.IH[OF k] obtain st' ev3 where
        tl: "train_loop fuel shuffle evaluate a train_dls ?st1 = Some (Inr (st', ev3))"
        and c: "(evaluated ev3, saved ev3, best_acc st', patience_counter st', epoch_counter st')
            = ctl (patience a) (\<lambda>e. acc (evaluate e)) k (best_acc st)
                (patience_counter st + 1) (Suc ?e)"
        and v: "val_logs ev3 = map evaluate (saved ev3)"
        and f: "ckpts st' = (if saved ev3 = [] then ckpts ?st1
                       else (ckpts ?st1)(ckpt_path a \<mapsto> (domain_name a, last (saved ev3))))"
        and l: "loss_logs ev3 = concat (replicate (length (evaluated ev3)) (epoch_logs a ?n))"
        and t: "\<forall>p e. TorchSave p e \<in> set ev3 \<longrightarrow> p = ckpt_path a"
        by auto
      let ?ev = "?ev1 @ [Evaluate ?e] @ ev3"
      have res: "train_loop fuel shuffle evaluate a train_dls st = Some (Inr (st', ?ev))"
        using lt run False np tl
        by (subst train_loop.simps) (simp add: after_epoch_def Let_def)
      have "(evaluated ?ev, saved ?ev, best_acc st', patience_counter st', epoch_counter st')
            = ctl (patience a) (\<lambda>e. acc (evaluate e)) (Suc k)
                (best_acc st) (patience_counter st) ?e"
        using False np c[symmetric] by (simp add: evaluated_append saved_append p1)
      moreover have "val_logs ?ev = map evaluate (saved ?ev)"
        using v by (simp add: val_logs_append saved_append p1)
      moreover have "ckpts st' = (if saved ?ev = [] then ckpts st
                       else (ckpts st)(ckpt_path a \<mapsto> (domain_name a, last (saved ?ev))))"
        using f by (simp add: saved_append p1)
      moreover have "loss_logs ?ev = concat (replicate (length (evaluated ?ev)) (epoch_logs a ?n))"
        using l by (simp add: loss_logs_append evaluated_append p1)
      moreover have "\<forall>p e. TorchSave p e \<in> set ?ev \<longrightarrow> p = ckpt_path a"
        using t ts1 by auto
      ultimately show ?thesis using res by blast
    qed
  qed
qed

section \<open>Lemmas: the controller\<close>

lemma ctl_shape:
  "ctl p vacc k best pc e = (evs, svs, b', pc', e') \<Longrightarrow>
     evs = [e..<e + length evs] \<and> length evs \<le> k \<and>
     (pc' = p \<and> e' + 1 = e + length evs \<or> e' = e + k \<and> length evs = k)"
proof (induction p vacc k best pc e arbitrary: evs svs b' pc' e' rule: ctl.induct)
  case (1 p vacc best pc e)
  then show ?case by simp
next
  case (2 p vacc k best pc e)
  show ?case
  proof (cases "vacc e > best")
    case True
    obtain evs1 svs1 b1 pc1 e1 where r: "ctl p vacc k (vacc e) 0 (Suc e) = (evs1, svs1, b1, pc1, e1)"
      by (metis prod_cases5)
    with True "2.prems" have eq: "evs = e # evs1" "pc' = pc1" "e' = e1" by simp_all
    from "2.IH"(1)[OF True r] have
      "evs1 = [Suc e..<Suc e + length evs1]" "length evs1 \<le> k"
      "pc1 = p \<and> e1 + 1 = Suc e + length evs1 \<or> e1 = Suc e + k \<and> length evs1 = k"
      by simp_all
    then show ?thesis unfolding eq
      by (auto simp: upt_conv_Cons simp del: upt_Suc)
  next
    case False
    show ?thesis
    proof (cases "pc + 1 = p")
      case True
      with False "2.prems" show ?thesis by auto
    next
      case np: False
      obtain evs1 svs1 b1 pc1 e1 where
        r: "ctl p vacc k best (pc + 1) (Suc e) = (evs1, svs1, b1, pc1, e1)"
        by (metis prod_cases5)
      with False np "2.prems" have eq: "evs = e # evs1" "pc' = pc1" "e' = e1" by simp_all
      from "2.IH"(2)[OF False np r] have
        "evs1 = [Suc e..<Suc e + length evs1]" "length evs1 \<le> k"
        "pc1 = p \<and> e1 + 1 = Suc e + length evs1 \<or> e1 = Suc e + k \<and> length evs1 = k"
        by simp_all
      then show ?thesis unfolding eq
        by (auto simp: upt_conv_Cons simp del: upt_Suc)
    qed
  qed
qed


lemma ctl_improving:
  "ctl p vacc k best pc e = (evs, svs, b', pc', e') \<Longrightarrow> best = best_before vacc e \<Longrightarrow>
     svs = filter (\<lambda>x. vacc x > best_before vacc x) evs"
proof (induction p vacc k best pc e arbitrary: evs svs b' pc' e' rule: ctl.induct)
  case (1 p vacc best pc e)
  then show ?case by simp
next
  case (2 p vacc k best pc e)
  show ?case
  proof (cases "vacc e > best")
    case True
    obtain evs1 svs1 b1 pc1 e1 where r: "ctl p vacc k (vacc e) 0 (Suc e) = (evs1, svs1, b1, pc1, e1)"
      by (metis prod_cases5)
    with True "2.prems" have eq: "evs = e # evs1" "svs = e # svs1" by simp_all
    have "vacc e = best_before vacc (Suc e)" using True "2.prems"(2) by simp
    from "2.IH"(1)[OF True r this] True "2.prems"(2) show ?thesis unfolding eq by simp
  next
    case False
    show ?thesis
    proof (cases "pc + 1 = p")
      case True
      with False "2.prems" show ?thesis by auto
    next
      case np: False
      obtain evs1 svs1 b1 pc1 e1 where
        r: "ctl p vacc k best (pc + 1) (Suc e) = (evs1, svs1, b1, pc1, e1)"
        by (metis prod_cases5)
      with False np "2.prems" have eq: "evs = e # evs1" "svs = svs1" by simp_all
      have "best = best_before vacc (Suc e)" using False "2.prems"(2) by simp
      from "2.IH"(2)[OF False np r this] False "2.prems"(2) show ?thesis unfolding eq by simp
    qed
  qed
qed

section \<open>Lemmas: folds and aggregation\<close>





lemma n_correct_le: "n_correct lgs lbs \<le> length lbs"
  unfolding n_correct_def
  by (rule order_trans[OF length_filter_le]) simp



section \<open>Lemmas: numerals, lines and parsing\<close>

lemma of_char_digit_char: "d < 10 \<Longrightarrow> (of_char (digit_char d) :: nat) = 48 + d"
  by (simp add: digit_char_def)

lemma is_digit_digit_char: "d < 10 \<Longrightarrow> is_digit (digit_char d)"
  by (simp add: is_digit_def of_char_digit_char)

lemma digit_val_digit_char: "d < 10 \<Longrightarrow> digit_val (digit_char d) = d"
  by (simp add: digit_val_def of_char_digit_char)

lemma str_nat_digits: "\<forall>c \<in> set (str_nat n). is_digit c"
proof (induction n rule: str_nat.induct)
  case (1 n)
  show ?case
  proof (cases "n < 10")
    case True
    then show ?thesis by (subst str_nat.simps) (simp add: is_digit_digit_char)
  next
    case False
    then have "\<forall>c \<in> set (str_nat (n div 10)). is_digit c" using 1 by simp
    moreover have "is_digit (digit_char (n mod 10))" by (simp add: is_digit_digit_char)
    ultimately show ?thesis using False by (subst str_nat.simps) simp
  qed
qed

lemma str_nat_nonempty: "str_nat n \<noteq> []"
  by (subst str_nat.simps) simp

lemma foldl_digits_snoc:
  "foldl (\<lambda>n c. 10 * n + digit_val c) k (xs @ [c]) = 10 * foldl (\<lambda>n c. 10 * n + digit_val c) k xs + digit_val c"
  by simp

lemma foldl_digits_str_nat: "foldl (\<lambda>n c. 10 * n + digit_val c) 0 (str_nat n) = n"
proof (induction n rule: str_nat.induct)
  case (1 n)
  show ?case
  proof (cases "n < 10")
    case True
    then show ?thesis by (subst str_nat.simps) (simp add: digit_val_digit_char)
  next
    case False
    then have "foldl (\<lambda>n c. 10 * n + digit_val c) 0 (str_nat (n div 10)) = n div 10"
      using 1 by simp
    then show ?thesis using False
      by (subst str_nat.simps) (simp add: digit_val_digit_char)
  qed
qed

lemma is_digit_not_special:
  "is_digit c \<Longrightarrow> \<not> is_space c \<and> c \<noteq> CHR ''_'' \<and> c \<noteq> CHR ''-'' \<and> c \<noteq> CHR ''+''
     \<and> c \<noteq> CHR '','' \<and> c \<noteq> CHR 10"
  by (auto simp: is_digit_def is_space_def Let_def)

lemma digits_ok_all_digits: "s \<noteq> [] \<Longrightarrow> \<forall>c \<in> set s. is_digit c \<Longrightarrow> digits_ok s"
  by (induction s rule: digits_ok.induct) (auto dest: is_digit_not_special)

lemma digits_num_all_digits:
  "\<forall>c \<in> set s. is_digit c \<Longrightarrow> digits_num s = foldl (\<lambda>n c. 10 * n + digit_val c) 0 s"
proof -
  assume "\<forall>c \<in> set s. is_digit c"
  then have "filter (\<lambda>c. c \<noteq> CHR ''_'') s = s"
    by (auto simp: filter_id_conv dest: is_digit_not_special)
  then show ?thesis by (simp add: digits_num_def)
qed

lemma dropWhile_hd: "xs \<noteq> [] \<Longrightarrow> \<not> P (hd xs) \<Longrightarrow> dropWhile P xs = xs"
  by (cases xs) simp_all

lemma strip_id:
  assumes "s \<noteq> []" "\<not> is_space (hd s)" "\<not> is_space (last s)"
  shows "strip s = s"
proof -
  have a: "dropWhile is_space s = s" using assms by (intro dropWhile_hd) simp_all
  have "rev s \<noteq> []" "hd (rev s) = last s" using assms(1) by (simp_all add: hd_rev)
  then have "dropWhile is_space (rev s) = rev s" using assms(3) by (intro dropWhile_hd) simp_all
  then show ?thesis by (simp add: strip_def a)
qed

lemma strip_newline:
  assumes "s \<noteq> []" "\<not> is_space (hd s)" "\<not> is_space (last s)"
  shows "strip (s @ [CHR 10]) = s"
proof -
  have a: "dropWhile is_space (s @ [CHR 10]) = s @ [CHR 10]"
    using assms by (intro dropWhile_hd) simp_all
  have sp: "is_space (CHR 10)" by (simp add: is_space_def)
  have "rev s \<noteq> []" "hd (rev s) = last s" using assms(1) by (simp_all add: hd_rev)
  then have "dropWhile is_space (rev s) = rev s" using assms(3) by (intro dropWhile_hd) simp_all
  then show ?thesis by (simp add: strip_def a sp)
qed

lemma py_int_str_nat: "py_int (str_nat n) = Inr (int n)"
proof -
  let ?s = "str_nat n"
  have ne: "?s \<noteq> []" by (rule str_nat_nonempty)
  have dg: "\<forall>c \<in> set ?s. is_digit c" by (rule str_nat_digits)
  have h: "is_digit (hd ?s)" "is_digit (last ?s)" using ne dg by simp_all
  have st: "strip ?s = ?s"
    using ne h by (intro strip_id) (auto dest: is_digit_not_special)
  obtain c cs where s: "?s = c # cs" using ne by (cases ?s) auto
  have c: "c \<noteq> CHR ''-''" "c \<noteq> CHR ''+''" using h(1) s by (auto dest: is_digit_not_special)
  have ok: "digits_ok (c # cs)" using digits_ok_all_digits[OF ne dg] s by simp
  have num: "digits_num (c # cs) = n"
    using digits_num_all_digits[OF dg] foldl_digits_str_nat[of n] s by simp
  show ?thesis
    unfolding py_int_def st unfolding s using c ok num by simp
qed

lemma split_on_none: "c \<notin> set xs \<Longrightarrow> split_on c xs cur = [cur @ xs]"
  by (induction xs arbitrary: cur) auto

lemma split_on_first:
  "c \<notin> set xs \<Longrightarrow> split_on c (xs @ c # ys) cur = (cur @ xs) # split_on c ys []"
  by (induction xs arbitrary: cur) auto

lemma parse_line_index_line: "parse_line (index_line j idx) = Inr (int j, int idx)"
proof -
  define a where "a = str_nat j @ CHR '','' # str_nat idx"
  have dj: "\<forall>c \<in> set (str_nat j). is_digit c" and di: "\<forall>c \<in> set (str_nat idx). is_digit c"
    by (rule str_nat_digits)+
  have nj: "str_nat j \<noteq> []" and ni: "str_nat idx \<noteq> []" by (rule str_nat_nonempty)+
  have ne: "a \<noteq> []" by (simp add: a_def)
  have "hd a = hd (str_nat j)" using nj by (simp add: a_def)
  moreover have "is_digit (hd (str_nat j))" using nj dj by simp
  ultimately have h: "\<not> is_space (hd a)" using is_digit_not_special by metis
  have "last a = last (str_nat idx)" using ni by (simp add: a_def)
  moreover have "is_digit (last (str_nat idx))" using ni di by simp
  ultimately have l: "\<not> is_space (last a)" using is_digit_not_special by metis
  have il: "index_line j idx = a @ [CHR 10]" by (simp add: index_line_def a_def)
  have st: "strip (index_line j idx) = a"
    unfolding il by (rule strip_newline[OF ne h l])
  have cj: "CHR '','' \<notin> set (str_nat j)"
    using dj is_digit_not_special by blast
  have ci: "CHR '','' \<notin> set (str_nat idx)"
    using di is_digit_not_special by blast
  have "split_on (CHR '','') a [] = ([] @ str_nat j) # split_on (CHR '','') (str_nat idx) []"
    unfolding a_def by (rule split_on_first[OF cj])
  also have "split_on (CHR '','') (str_nat idx) [] = [[] @ str_nat idx]"
    by (rule split_on_none[OF ci])
  finally have sp: "split_on (CHR '','') a [] = [str_nat j, str_nat idx]" by simp
  show ?thesis
    unfolding parse_line_def st sp by (simp add: py_int_str_nat)
qed

lemma file_lines_line:
  "CHR 10 \<notin> set a \<Longrightarrow> file_lines (a @ CHR 10 # rest) cur = (cur @ a @ [CHR 10]) # file_lines rest []"
  by (induction a arbitrary: cur) auto

lemma index_line_shape:
  "\<exists>a. index_line j idx = a @ [CHR 10] \<and> CHR 10 \<notin> set a"
proof -
  have "\<forall>c \<in> set (str_nat j). is_digit c" "\<forall>c \<in> set (str_nat idx). is_digit c"
    by (rule str_nat_digits)+
  then have "CHR 10 \<notin> set (str_nat j @ '','' @ str_nat idx)"
    by (auto dest: is_digit_not_special)
  then show ?thesis by (intro exI[of _ "str_nat j @ '','' @ str_nat idx"]) (simp add: index_line_def)
qed

lemma file_lines_index_lines:
  "file_lines (concat (map (index_line j) idxs) @ rest) [] = map (index_line j) idxs @ file_lines rest []"
proof (induction idxs)
  case Nil
  then show ?case by simp
next
  case (Cons idx idxs)
  obtain a where a: "index_line j idx = a @ [CHR 10]" "CHR 10 \<notin> set a"
    using index_line_shape by blast
  show ?case
    using file_lines_line[OF a(2), of "concat (map (index_line j) idxs) @ rest" "[]"] Cons.IH
    by (simp add: a(1))
qed

section \<open>Lemmas: the dictionary of a reload\<close>

lemma read_train_parse_all:
  "read_train ls m =
     (case parse_all ls of
        Inl e \<Rightarrow> Inl e
      | Inr es \<Rightarrow> Inr (foldl (\<lambda>m e. dd_append_train (fst e) (snd e) m) m es))"
  by (induction ls arbitrary: m) (auto split: sum.splits)

lemma read_val_parse_all:
  "read_val ls m =
     (case parse_all ls of
        Inl e \<Rightarrow> Inl e
      | Inr es \<Rightarrow> Inr (foldl (\<lambda>m e. dd_append_val (fst e) (snd e) m) m es))"
  by (induction ls arbitrary: m) (auto split: sum.splits)

lemma map_of_update_train:
  "map_of (map (\<lambda>(k, tr, va). if k = d then (k, tr @ [idx], va) else (k, tr, va)) m) d'
   = map_option (\<lambda>(tr, va). if d' = d then (tr @ [idx], va) else (tr, va)) (map_of m d')"
  by (induction m) (auto split: if_splits)

lemma map_of_update_val:
  "map_of (map (\<lambda>(k, tr, va). if k = d then (k, tr, va @ [idx]) else (k, tr, va)) m) d'
   = map_option (\<lambda>(tr, va). if d' = d then (tr, va @ [idx]) else (tr, va)) (map_of m d')"
  by (induction m) (auto split: if_splits)

lemma keys_update_train:
  "map fst (map (\<lambda>(k, tr, va). if k = d then (k, tr @ [idx], va) else (k, tr, va)) m) = map fst m"
  by (induction m) auto

lemma keys_update_val:
  "map fst (map (\<lambda>(k, tr, va). if k = d then (k, tr, va @ [idx]) else (k, tr, va)) m) = map fst m"
  by (induction m) auto

lemma map_of_None_keys: "map_of m d = None \<longleftrightarrow> d \<notin> set (map fst m)"
  by (simp add: map_of_eq_None_iff)

lemma dd_append_train_keys: "map fst (dd_append_train d idx m) = add_key (map fst m) d"
proof (cases "map_of m d")
  case None
  then show ?thesis
    using map_of_None_keys[of m d] by (simp add: dd_append_train_def add_key_def)
next
  case (Some x)
  then have "d \<in> set (map fst m)" using map_of_None_keys[of m d] by simp
  with Some show ?thesis
    by (auto simp: dd_append_train_def add_key_def split: prod.splits)
qed

lemma dd_append_val_keys: "map fst (dd_append_val d idx m) = add_key (map fst m) d"
proof (cases "map_of m d")
  case None
  then show ?thesis
    using map_of_None_keys[of m d] by (simp add: dd_append_val_def add_key_def)
next
  case (Some x)
  then have "d \<in> set (map fst m)" using map_of_None_keys[of m d] by simp
  with Some show ?thesis
    by (auto simp: dd_append_val_def add_key_def split: prod.splits)
qed

lemma dd_append_train_lookup:
  "tr_of (dd_append_train d idx m) d' = (if d' = d then tr_of m d @ [idx] else tr_of m d')"
  "va_of (dd_append_train d idx m) d' = va_of m d'"
proof -
  show "tr_of (dd_append_train d idx m) d' = (if d' = d then tr_of m d @ [idx] else tr_of m d')"
  proof (cases "map_of m d")
    case None
    then show ?thesis
      by (cases "map_of m d'") (auto simp: dd_append_train_def tr_of_def map_add_def)
  next
    case (Some x)
    then show ?thesis
      by (cases "map_of m d'") (auto simp: dd_append_train_def tr_of_def map_of_update_train)
  qed
  show "va_of (dd_append_train d idx m) d' = va_of m d'"
  proof (cases "map_of m d")
    case None
    then show ?thesis
      by (cases "map_of m d'") (auto simp: dd_append_train_def va_of_def map_add_def)
  next
    case (Some x)
    then show ?thesis
      by (cases "map_of m d'") (auto simp: dd_append_train_def va_of_def map_of_update_train)
  qed
qed

lemma dd_append_val_lookup:
  "va_of (dd_append_val d idx m) d' = (if d' = d then va_of m d @ [idx] else va_of m d')"
  "tr_of (dd_append_val d idx m) d' = tr_of m d'"
proof -
  show "va_of (dd_append_val d idx m) d' = (if d' = d then va_of m d @ [idx] else va_of m d')"
  proof (cases "map_of m d")
    case None
    then show ?thesis
      by (cases "map_of m d'") (auto simp: dd_append_val_def va_of_def map_add_def)
  next
    case (Some x)
    then show ?thesis
      by (cases "map_of m d'") (auto simp: dd_append_val_def va_of_def map_of_update_val)
  qed
  show "tr_of (dd_append_val d idx m) d' = tr_of m d'"
  proof (cases "map_of m d")
    case None
    then show ?thesis
      by (cases "map_of m d'") (auto simp: dd_append_val_def tr_of_def map_add_def)
  next
    case (Some x)
    then show ?thesis
      by (cases "map_of m d'") (auto simp: dd_append_val_def tr_of_def map_of_update_val)
  qed
qed

lemma fold_train:
  "map fst (foldl (\<lambda>m e. dd_append_train (fst e) (snd e) m) m es)
     = slot_keys (map fst m) (map fst es)
   \<and> tr_of (foldl (\<lambda>m e. dd_append_train (fst e) (snd e) m) m es) d = tr_of m d @ idx_of es d
   \<and> va_of (foldl (\<lambda>m e. dd_append_train (fst e) (snd e) m) m es) d = va_of m d"
proof (induction es arbitrary: m)
  case Nil
  then show ?case by (simp add: slot_keys_def idx_of_def)
next
  case (Cons e es)
  show ?case
    using Cons.IH[of "dd_append_train (fst e) (snd e) m"]
    by (simp add: slot_keys_def idx_of_def dd_append_train_keys dd_append_train_lookup)
qed

lemma fold_val:
  "map fst (foldl (\<lambda>m e. dd_append_val (fst e) (snd e) m) m es)
     = slot_keys (map fst m) (map fst es)
   \<and> va_of (foldl (\<lambda>m e. dd_append_val (fst e) (snd e) m) m es) d = va_of m d @ idx_of es d
   \<and> tr_of (foldl (\<lambda>m e. dd_append_val (fst e) (snd e) m) m es) d = tr_of m d"
proof (induction es arbitrary: m)
  case Nil
  then show ?case by (simp add: slot_keys_def idx_of_def)
next
  case (Cons e es)
  show ?case
    using Cons.IH[of "dd_append_val (fst e) (snd e) m"]
    by (simp add: slot_keys_def idx_of_def dd_append_val_keys dd_append_val_lookup)
qed

lemma add_key_distinct: "distinct ks \<Longrightarrow> distinct (add_key ks d)"
  by (simp add: add_key_def)

lemma slot_keys_distinct: "distinct ks \<Longrightarrow> distinct (slot_keys ks ds)"
  unfolding slot_keys_def by (induction ds arbitrary: ks) (simp_all add: add_key_distinct)

lemma slot_keys_set: "set (slot_keys ks ds) = set ks \<union> set ds"
  unfolding slot_keys_def by (induction ds arbitrary: ks) (auto simp: add_key_def)

lemma slot_keys_append: "slot_keys ks (xs @ ys) = slot_keys (slot_keys ks xs) ys"
  by (simp add: slot_keys_def)

lemma dict_by_keys:
  "distinct (map fst m) \<Longrightarrow> m = map (\<lambda>d. (d, tr_of m d, va_of m d)) (map fst m)"
proof (induction m)
  case Nil
  then show ?case by simp
next
  case (Cons x m)
  obtain d tr va where x: "x = (d, tr, va)" by (cases x)
  have nd: "d \<notin> set (map fst m)" and dm: "distinct (map fst m)" using Cons.prems x by simp_all
  have same: "(d', tr_of (x # m) d', va_of (x # m) d') = (d', tr_of m d', va_of m d')"
    if "d' \<in> set (map fst m)" for d'
    using that nd by (auto simp: tr_of_def va_of_def x)
  have "map (\<lambda>d. (d, tr_of (x # m) d, va_of (x # m) d)) (map fst m)
        = map (\<lambda>d. (d, tr_of m d, va_of m d)) (map fst m)"
    by (rule map_cong[OF refl]) (rule same)
  also have "\<dots> = m" by (rule Cons.IH[OF dm, symmetric])
  finally have tl: "map (\<lambda>d. (d, tr_of (x # m) d, va_of (x # m) d)) (map fst m) = m" .
  have hd: "(d, tr_of (x # m) d, va_of (x # m) d) = x"
    by (simp add: x tr_of_def va_of_def)
  have "map (\<lambda>d. (d, tr_of (x # m) d, va_of (x # m) d)) (map fst (x # m))
        = (d, tr_of (x # m) d, va_of (x # m) d)
          # map (\<lambda>d. (d, tr_of (x # m) d, va_of (x # m) d)) (map fst m)"
    by (simp only: x list.map fst_conv)
  then show ?case by (simp only: tl hd)
qed

lemma py_index_in_range:
  "py_index xs i = (if in_range xs i then Inr (xs ! py_pos xs i) else Inl IndexError)"
  by (auto simp: py_index_def in_range_def py_pos_def)

lemma build_subsets_eq:
  "build_subsets dc m =
     (if \<forall>d \<in> set (map fst m). in_range dc d
      then Inr (map (\<lambda>(d, tr, va). (dc ! py_pos dc d, tr, va)) m)
      else Inl IndexError)"
proof (induction m)
  case Nil
  then show ?case by simp
next
  case (Cons x m)
  obtain d tr va where x: "x = (d, tr, va)" by (cases x)
  show ?case using Cons.IH by (simp add: x py_index_in_range)
qed

text \<open>A reload whose two files exist and parse: the subsets are given by the slots of the
  entries in the order of first occurrence; any slot out of range is an \<^verbatim>\<open>IndexError\<close>.\<close>

lemma reload_split_entries:
  assumes f: "files (train_idx_path dir domain) = Some f"
    and g: "files (val_idx_path dir domain) = Some g"
    and pf: "parse_all (file_lines f []) = Inr tes"
    and pg: "parse_all (file_lines g []) = Inr ves"
  shows "reload_split dir domain dc files =
     (if \<forall>d \<in> set (slot_keys [] (map fst (tes @ ves))). in_range dc d
      then Inr (map (\<lambda>d. (dc ! py_pos dc d, idx_of tes d, idx_of ves d))
                  (slot_keys [] (map fst (tes @ ves))))
      else Inl IndexError)"
proof -
  let ?m1 = "foldl (\<lambda>m e. dd_append_train (fst e) (snd e) m) [] tes"
  let ?m2 = "foldl (\<lambda>m e. dd_append_val (fst e) (snd e) m) ?m1 ves"
  let ?ks = "slot_keys [] (map fst (tes @ ves))"
  have k1: "map fst ?m1 = slot_keys [] (map fst tes)" using fold_train[of "[]" tes] by simp
  have k2: "map fst ?m2 = ?ks"
    using fold_val[of ?m1 ves] by (simp add: k1 slot_keys_append)
  have t: "tr_of ?m2 d = idx_of tes d" for d
    using fold_val[of ?m1 ves d] fold_train[of "[]" tes d] by (simp add: tr_of_def)
  have v: "va_of ?m2 d = idx_of ves d" for d
    using fold_val[of ?m1 ves d] fold_train[of "[]" tes d] by (simp add: va_of_def)
  have "distinct (map fst ?m2)" unfolding k2 by (rule slot_keys_distinct) simp
  from dict_by_keys[OF this] have m2: "?m2 = map (\<lambda>d. (d, idx_of tes d, idx_of ves d)) ?ks"
    by (simp only: k2 t v)
  have r: "reload_split dir domain dc files = build_subsets dc ?m2"
    by (simp add: reload_split_def open_read_def f g read_train_parse_all read_val_parse_all pf pg)
  have "build_subsets dc ?m2 =
     (if \<forall>d \<in> set ?ks. in_range dc d
      then Inr (map (\<lambda>(d, tr, va). (dc ! py_pos dc d, tr, va)) ?m2)
      else Inl IndexError)"
    by (simp only: build_subsets_eq k2)
  also have "map (\<lambda>(d, tr, va). (dc ! py_pos dc d, tr, va)) ?m2
       = map (\<lambda>d. (dc ! py_pos dc d, idx_of tes d, idx_of ves d)) ?ks"
    by (subst m2) (simp add: comp_def)
  finally show ?thesis using r by simp
qed

section \<open>Lemmas: reading back what was written\<close>

lemma parse_all_append:
  "parse_all ls1 = Inr es1 \<Longrightarrow>
     parse_all (ls1 @ ls2) = (case parse_all ls2 of Inl e \<Rightarrow> Inl e | Inr es2 \<Rightarrow> Inr (es1 @ es2))"
  by (induction ls1 arbitrary: es1) (auto split: sum.splits)

lemma parse_all_index_lines:
  "parse_all (map (index_line j) idxs) = Inr (map (\<lambda>idx. (int j, int idx)) idxs)"
  by (induction idxs) (simp_all add: parse_line_index_line)

lemma file_lines_write_indices:
  "parse_all (file_lines (write_indices j xs) []) = Inr (entries j xs)"
proof (induction xs arbitrary: j)
  case Nil
  then show ?case by simp
next
  case (Cons idxs xs)
  have "file_lines (write_indices j (idxs # xs)) []
        = map (index_line j) idxs @ file_lines (write_indices (Suc j) xs) []"
    by (simp add: file_lines_index_lines)
  then show ?case
    using parse_all_append[OF parse_all_index_lines[of j idxs]] Cons.IH[of "Suc j"] by simp
qed

lemma idx_of_append: "idx_of (xs @ ys) d = idx_of xs d @ idx_of ys d"
  by (simp add: idx_of_def)

lemma idx_of_slot:
  "idx_of (map (\<lambda>idx. (int j, int idx)) idxs) d = (if d = int j then map int idxs else [])"
  by (induction idxs) (auto simp: idx_of_def)

lemma idx_of_entries:
  "idx_of (entries j0 xs) (int j)
   = (if j0 \<le> j \<and> j < j0 + length xs then map int (xs ! (j - j0)) else [])"
proof (induction xs arbitrary: j0)
  case Nil
  then show ?case by (auto simp: idx_of_def)
next
  case (Cons idxs xs)
  show ?case
  proof (cases "j = j0")
    case True
    then show ?thesis
      using Cons.IH[of "Suc j0"] by (simp add: idx_of_append idx_of_slot)
  next
    case False
    have "(idxs # xs) ! (j - j0) = xs ! (j - Suc j0)" if "j0 \<le> j"
    proof -
      from that False have "j - j0 = Suc (j - Suc j0)" by arith
      then show ?thesis by simp
    qed
    then show ?thesis
      using False Cons.IH[of "Suc j0"] by (auto simp: idx_of_append idx_of_slot)
  qed
qed

lemma keys_entries:
  "map fst (entries j0 xs)
   = keyrep (map (\<lambda>i. (int (j0 + i), length (xs ! i))) [0..<length xs])"
proof (induction xs arbitrary: j0)
  case Nil
  then show ?case by (simp add: keyrep_def)
next
  case (Cons idxs xs)
  have u: "[0..<length (idxs # xs)] = 0 # map Suc [0..<length xs]"
    by (simp add: upt_conv_Cons map_Suc_upt del: upt_Suc)
  have H: "map (\<lambda>i. (int (j0 + i), length ((idxs # xs) ! i))) [0..<length (idxs # xs)]
        = (int j0, length idxs) # map (\<lambda>i. (int (Suc j0 + i), length (xs ! i))) [0..<length xs]"
    unfolding u by (simp add: comp_def)
  have e: "map fst (entries j0 (idxs # xs))
           = replicate (length idxs) (int j0) @ map fst (entries (Suc j0) xs)"
    by (simp add: map_replicate_const comp_def)
  have k: "keyrep ((int j0, length idxs) # rest) = replicate (length idxs) (int j0) @ keyrep rest"
    for rest by (simp add: keyrep_def)
  show ?case
    by (simp only: e H k Cons.IH[of "Suc j0"])
qed

lemma slot_keys_replicate:
  "slot_keys ks (replicate n x) = (if n = 0 \<or> x \<in> set ks then ks else ks @ [x])"
proof (induction n)
  case 0
  then show ?case by (simp add: slot_keys_def)
next
  case (Suc n)
  have "replicate (Suc n) x = replicate n x @ [x]" by (simp add: replicate_append_same)
  then have "slot_keys ks (replicate (Suc n) x) = add_key (slot_keys ks (replicate n x)) x"
    by (simp only: slot_keys_def foldl_append foldl.simps)
  then show ?case using Suc by (auto simp: add_key_def)
qed

lemma slot_keys_keyrep:
  "distinct (map fst kc) \<Longrightarrow>
     slot_keys ks (keyrep kc) = ks @ map fst (filter (\<lambda>p. snd p \<noteq> 0 \<and> fst p \<notin> set ks) kc)"
proof (induction kc arbitrary: ks)
  case Nil
  then show ?case by (simp add: keyrep_def slot_keys_def)
next
  case (Cons p kc)
  let ?ks1 = "slot_keys ks (replicate (snd p) (fst p))"
  have d: "distinct (map fst kc)" using Cons.prems by simp
  have nm: "fst p \<notin> set (map fst kc)" using Cons.prems by simp
  have np: "fst q \<noteq> fst p" if "q \<in> set kc" for q
  proof
    assume "fst q = fst p"
    then have "fst p \<in> fst ` set kc" using that by (metis imageI)
    with nm show False by simp
  qed
  have step: "slot_keys ks (keyrep (p # kc)) = slot_keys ?ks1 (keyrep kc)"
    by (simp add: keyrep_def slot_keys_append)
  show ?case
  proof (cases "snd p = 0 \<or> fst p \<in> set ks")
    case True
    then have "?ks1 = ks" by (simp add: slot_keys_replicate)
    then show ?thesis using step Cons.IH[OF d, of ks] True by auto
  next
    case False
    then have k1: "?ks1 = ks @ [fst p]" by (simp add: slot_keys_replicate)
    have "filter (\<lambda>q. snd q \<noteq> 0 \<and> fst q \<notin> set (ks @ [fst p])) kc
          = filter (\<lambda>q. snd q \<noteq> 0 \<and> fst q \<notin> set ks) kc"
      by (rule filter_cong[OF refl]) (use np in auto)
    then show ?thesis using step Cons.IH[OF d, of "ks @ [fst p]"] False k1 by simp
  qed
qed

lemma paths_differ: "train_idx_path dir domain \<noteq> val_idx_path dir domain"
  by (simp add: train_idx_path_def val_idx_path_def)

lemma saved_keys:
  "slot_keys [] (map fst (entries 0 (map fst subsets) @ entries 0 (map snd subsets)))
   = map int (slot_order subsets)"
proof -
  let ?k = "length subsets"
  let ?kt = "map (\<lambda>i. (int i, length (fst (subsets ! i)))) [0..<?k]"
  let ?kv = "map (\<lambda>i. (int i, length (snd (subsets ! i)))) [0..<?k]"
  have kt: "map fst (entries 0 (map fst subsets)) = keyrep ?kt"
    unfolding keys_entries by (rule arg_cong[where f = keyrep]) simp
  have kv: "map fst (entries 0 (map snd subsets)) = keyrep ?kv"
    unfolding keys_entries by (rule arg_cong[where f = keyrep]) simp
  have dt: "distinct (map fst ?kt)" and dv: "distinct (map fst ?kv)"
    by (simp_all add: comp_def distinct_map inj_on_def)
  let ?ks1 = "map int (filter (\<lambda>j. fst (subsets ! j) \<noteq> []) [0..<?k])"
  have s1: "slot_keys [] (keyrep ?kt) = ?ks1"
    unfolding slot_keys_keyrep[OF dt] by (simp add: filter_map comp_def)
  have mem: "int j \<notin> set ?ks1 \<longleftrightarrow> fst (subsets ! j) = []" if "j < ?k" for j
    using that by auto
  have "filter (\<lambda>p. snd p \<noteq> 0 \<and> fst p \<notin> set ?ks1) ?kv
        = map (\<lambda>i. (int i, length (snd (subsets ! i))))
            (filter (\<lambda>j. fst (subsets ! j) = [] \<and> snd (subsets ! j) \<noteq> []) [0..<?k])"
    unfolding filter_map comp_def
    by (rule arg_cong[where f = "map _"], rule filter_cong[OF refl]) (use mem in auto)
  then have s2: "slot_keys ?ks1 (keyrep ?kv)
        = ?ks1 @ map int (filter (\<lambda>j. fst (subsets ! j) = [] \<and> snd (subsets ! j) \<noteq> []) [0..<?k])"
    unfolding slot_keys_keyrep[OF dv] by (simp add: comp_def)
  show ?thesis
    by (simp only: map_append slot_keys_append kt kv s1 s2 slot_order_def)
qed


text \<open>Reloading the files of a saved split, for any list of data sets of the same length.\<close>

lemma reload_saved_split:
  assumes len: "length dc = length subsets"
  shows "reload_split (run_path a) domain dc (save_indices a domain subsets files)
           = Inr (map (\<lambda>j. (dc ! j, map int (fst (subsets ! j)), map int (snd (subsets ! j))))
                    (slot_order subsets))"
proof -
  let ?files = "save_indices a domain subsets files"
  let ?tes = "entries 0 (map fst subsets)"
  let ?ves = "entries 0 (map snd subsets)"
  let ?k = "length subsets"
  have f: "?files (train_idx_path (run_path a) domain) = Some (write_indices 0 (map fst subsets))"
    by (simp add: save_indices_def paths_differ)
  have g: "?files (val_idx_path (run_path a) domain) = Some (write_indices 0 (map snd subsets))"
    by (simp add: save_indices_def)
  have lt: "j < ?k" if "j \<in> set (slot_order subsets)" for j
    using that by (auto simp: slot_order_def)
  have rng: "\<forall>d \<in> set (map int (slot_order subsets)). in_range dc d"
    using lt len by (auto simp: in_range_def)
  have el: "(dc ! py_pos dc (int j), idx_of ?tes (int j), idx_of ?ves (int j))
            = (dc ! j, map int (fst (subsets ! j)), map int (snd (subsets ! j)))"
    if "j \<in> set (slot_order subsets)" for j
    using lt[OF that] by (simp add: py_pos_def idx_of_entries)
  have "map (\<lambda>d. (dc ! py_pos dc d, idx_of ?tes d, idx_of ?ves d)) (map int (slot_order subsets))
        = map (\<lambda>j. (dc ! py_pos dc (int j), idx_of ?tes (int j), idx_of ?ves (int j)))
            (slot_order subsets)"
    by (simp add: comp_def)
  also have "\<dots> = map (\<lambda>j. (dc ! j, map int (fst (subsets ! j)), map int (snd (subsets ! j))))
                      (slot_order subsets)"
    by (rule map_cong[OF refl]) (rule el)
  finally have m: "map (\<lambda>d. (dc ! py_pos dc d, idx_of ?tes d, idx_of ?ves d))
                     (map int (slot_order subsets))
        = map (\<lambda>j. (dc ! j, map int (fst (subsets ! j)), map int (snd (subsets ! j))))
            (slot_order subsets)" .
  show "reload_split (run_path a) domain dc ?files
           = Inr (map (\<lambda>j. (dc ! j, map int (fst (subsets ! j)), map int (snd (subsets ! j))))
                    (slot_order subsets))"
    unfolding reload_split_entries[OF f g file_lines_write_indices file_lines_write_indices]
      saved_keys
    using rng m by simp
qed

section \<open>Lemmas: what a reload depends on\<close>

lemma py_pos_less: "in_range dc d \<Longrightarrow> py_pos dc d < length dc"
  by (auto simp: in_range_def py_pos_def)

lemma build_subsets_positions:
  "build_subsets dc m =
     (case build_subsets [0..<length dc] m of
        Inl e \<Rightarrow> Inl e
      | Inr xs \<Rightarrow> Inr (map (\<lambda>(j, tr, va). (dc ! j, tr, va)) xs))"
proof (cases "\<forall>d \<in> set (map fst m). in_range dc d")
  case True
  have r: "in_range [0..<length dc] d = in_range dc d" for d by (simp add: in_range_def)
  have p: "py_pos [0..<length dc] d = py_pos dc d" for d by (simp add: py_pos_def)
  have "map (\<lambda>(j, tr, va). (dc ! j, tr, va))
          (map (\<lambda>(d, tr, va). ([0..<length dc] ! py_pos dc d, tr, va)) m)
        = map (\<lambda>(d, tr, va). (dc ! py_pos dc d, tr, va)) m"
    unfolding map_map
  proof (rule map_cong[OF refl])
    fix x assume x: "x \<in> set m"
    obtain d tr va where e: "x = (d, tr, va)" by (cases x)
    have "d \<in> set (map fst m)" using x e by force
    then have "py_pos dc d < length dc" using True py_pos_less by blast
    then show "((\<lambda>(j, tr, va). (dc ! j, tr, va)) \<circ> (\<lambda>(d, tr, va). ([0..<length dc] ! py_pos dc d, tr, va))) x
               = (\<lambda>(d, tr, va). (dc ! py_pos dc d, tr, va)) x"
      by (simp add: e)
  qed
  then show ?thesis using True by (simp add: build_subsets_eq r p)
next
  case False
  have r: "in_range [0..<length dc] d = in_range dc d" for d by (simp add: in_range_def)
  have a: "build_subsets dc m = Inl IndexError"
    unfolding build_subsets_eq[of dc m] using False by simp
  have "\<not> (\<forall>d \<in> set (map fst m). in_range [0..<length dc] d)" using False by (simp add: r)
  then have b: "build_subsets [0..<length dc] m = Inl IndexError"
    unfolding build_subsets_eq[of "[0..<length dc]" m] by simp
  show ?thesis by (simp only: a b sum.case)
qed

lemma reload_split_positions:
  "reload_split dir domain dc files =
     (case reload_split dir domain [0..<length dc] files of
        Inl e \<Rightarrow> Inl e
      | Inr xs \<Rightarrow> Inr (map (\<lambda>(j, tr, va). (dc ! j, tr, va)) xs))"
  unfolding reload_split_def
  by (auto split: sum.splits simp: build_subsets_positions[of dc])

lemma py_int_error: "py_int s = Inl e \<Longrightarrow> e = ValueError"
  by (auto simp: py_int_def split: list.splits if_splits)

lemma parse_line_error: "parse_line l = Inl e \<Longrightarrow> e = ValueError \<or> e = IndexError"
  by (auto simp: parse_line_def split: list.splits sum.splits dest: py_int_error)

lemma read_train_error: "read_train ls m = Inl e \<Longrightarrow> e = ValueError \<or> e = IndexError"
  by (induction ls arbitrary: m) (auto split: sum.splits dest: parse_line_error)

lemma read_val_error: "read_val ls m = Inl e \<Longrightarrow> e = ValueError \<or> e = IndexError"
  by (induction ls arbitrary: m) (auto split: sum.splits dest: parse_line_error)

lemma build_subsets_error: "build_subsets dc m = Inl e \<Longrightarrow> e = IndexError"
  by (simp add: build_subsets_eq split: if_splits)

lemma reload_split_error:
  "reload_split dir domain dc files = Inl e \<Longrightarrow>
     e = FileNotFoundError \<or> e = ValueError \<or> e = IndexError"
  unfolding reload_split_def open_read_def
  by (auto split: option.splits sum.splits
      dest: read_train_error read_val_error build_subsets_error)

section \<open>Lemmas: the fresh split\<close>









section \<open>The claims\<close>

subsection \<open>C1: early stopping\<close>

text \<open>
  C1.  After every epoch the controller takes the validation accuracy.  If it is strictly
  above the best accuracy seen, the checkpoint is saved, the patience counter is reset to 0
  and the validation metrics are logged (and the loop goes on); otherwise the patience
  counter is incremented and the loop is left exactly when the counter equals the configured
  patience.  A run of \<^verbatim>\<open>train\<close> validates the epochs \<open>0, 1, \<dots>\<close> in turn, never more than
  \<open>n_epochs\<close> of them, saves a checkpoint after exactly the epochs whose accuracy is above
  the best of the epochs before (and above 0.0), and ends either with the patience counter at
  the patience or after \<open>n_epochs\<close> epochs.  For the accuracies 0.5, 0.6, 0.55, 0.55 with
  patience 2 and at least 4 epochs allowed, checkpoints are saved after the first and the
  second epoch (epochs 0 and 1, counted from 0) and training stops after the fourth.
  The epochs themselves are assumed to end (accumulation factor at least 1, a non-zero
  logging interval, enough fuel).
\<close>

theorem early_stopping_protocol:
  assumes perm: "\<And>r xs. mset (fst (shuffle r xs)) = mset xs"
    and g: "1 \<le> gradient_accumulation a" and li: "log_interval a \<noteq> 0"
    and fuel: "sum_list (map length train_dls) + length train_dls \<le> fuel"
  shows "(\<forall>(st :: 'r train_state) m.
            (acc m > best_acc st \<longrightarrow>
               after_epoch a m st =
                 (False,
                  st\<lparr>best_acc := acc m,
                     ckpts := (ckpts st)(ckpt_path a \<mapsto> (domain_name a, epoch_counter st)),
                     patience_counter := 0, epoch_counter := epoch_counter st + 1\<rparr>,
                  [TorchSave (ckpt_path a) (epoch_counter st), LogValidation m :: 'b event]))
          \<and> (\<not> acc m > best_acc st \<longrightarrow>
               after_epoch a m st =
                 (patience_counter st + 1 = patience a,
                  st\<lparr>patience_counter := patience_counter st + 1,
                     epoch_counter := (if patience_counter st + 1 = patience a
                                       then epoch_counter st else epoch_counter st + 1)\<rparr>,
                  [] :: 'b event list)))
     \<and> (\<exists>st' ev. train fuel shuffle evaluate a (train_dls :: 'b list list) r fs
                    = Some (Inr (st', ev))
          \<and> evaluated ev = [0..<length (evaluated ev)]
          \<and> int (length (evaluated ev)) \<le> max 0 (n_epochs a)
          \<and> saved ev = filter (\<lambda>e. acc (evaluate e) > best_before (\<lambda>e. acc (evaluate e)) e)
                          (evaluated ev)
          \<and> (patience_counter st' = patience a
               \<or> int (length (evaluated ev)) = max 0 (n_epochs a))
          \<and> (patience a = 2 \<and> 4 \<le> n_epochs a
               \<and> acc (evaluate 0) = 0.5 \<and> acc (evaluate 1) = 0.6
               \<and> acc (evaluate 2) = 0.55 \<and> acc (evaluate 3) = 0.55
              \<longrightarrow> evaluated ev = [0, 1, 2, 3] \<and> saved ev = [0, 1]
                  \<and> patience_counter st' = 2 \<and> best_acc st' = 0.6))"
proof
  show "\<forall>(st :: 'r train_state) m.
            (acc m > best_acc st \<longrightarrow>
               after_epoch a m st =
                 (False,
                  st\<lparr>best_acc := acc m,
                     ckpts := (ckpts st)(ckpt_path a \<mapsto> (domain_name a, epoch_counter st)),
                     patience_counter := 0, epoch_counter := epoch_counter st + 1\<rparr>,
                  [TorchSave (ckpt_path a) (epoch_counter st), LogValidation m :: 'b event]))
          \<and> (\<not> acc m > best_acc st \<longrightarrow>
               after_epoch a m st =
                 (patience_counter st + 1 = patience a,
                  st\<lparr>patience_counter := patience_counter st + 1,
                     epoch_counter := (if patience_counter st + 1 = patience a
                                       then epoch_counter st else epoch_counter st + 1)\<rparr>,
                  [] :: 'b event list))"
    by (simp add: after_epoch_def Let_def)
next
  let ?accs = "\<lambda>e. acc (evaluate e)"
  let ?st0 = "\<lparr>best_acc = 0, patience_counter = 0, epoch_counter = 0, t_rng = r, ckpts = fs\<rparr>"
  let ?k = "nat (n_epochs a)"
  have k: "?k = nat (n_epochs a - int (epoch_counter ?st0))" by simp
  from train_loop_ctl[where shuffle = shuffle and evaluate = evaluate, OF perm g li fuel k]
  obtain st' ev where
    run: "train_loop fuel shuffle evaluate a train_dls ?st0 = Some (Inr (st', ev))"
    and c: "ctl (patience a) ?accs ?k 0 0 0
            = (evaluated ev, saved ev, best_acc st', patience_counter st', epoch_counter st')"
    by auto
  have tr: "train fuel shuffle evaluate a train_dls r fs = Some (Inr (st', ev))"
    using run by (simp add: train_def)
  from ctl_shape[OF c] have
    s1: "evaluated ev = [0..<length (evaluated ev)]"
    and s2: "length (evaluated ev) \<le> ?k"
    and s3: "patience_counter st' = patience a \<or> length (evaluated ev) = ?k"
    by auto
  have i: "saved ev = filter (\<lambda>e. ?accs e > best_before ?accs e) (evaluated ev)"
    by (rule ctl_improving[OF c]) simp
  have b: "int (length (evaluated ev)) \<le> max 0 (n_epochs a)" using s2 by simp
  have x: "patience_counter st' = patience a
             \<or> int (length (evaluated ev)) = max 0 (n_epochs a)"
    using s3 by (auto simp: max_def)
  have ex: "evaluated ev = [0, 1, 2, 3] \<and> saved ev = [0, 1]
              \<and> patience_counter st' = 2 \<and> best_acc st' = 0.6"
    if h: "patience a = 2 \<and> 4 \<le> n_epochs a
               \<and> acc (evaluate 0) = 0.5 \<and> acc (evaluate 1) = 0.6
               \<and> acc (evaluate 2) = 0.55 \<and> acc (evaluate 3) = 0.55"
  proof -
    from h have "4 \<le> n_epochs a" by blast
    then have "?k = Suc (Suc (Suc (Suc (?k - 4))))" by arith
    then obtain k' where k': "?k = Suc (Suc (Suc (Suc k')))" ..
    have a0: "?accs 0 = 0.5" and a1: "?accs (Suc 0) = 0.6"
      and a2: "?accs (Suc (Suc 0)) = 0.55" and a3: "?accs (Suc (Suc (Suc 0))) = 0.55"
      using h by (simp_all add: numeral_2_eq_2 numeral_3_eq_3)
    have "ctl 2 ?accs (Suc (Suc (Suc (Suc k')))) 0 0 0 = ([0, 1, 2, 3], [0, 1], 0.6, 2, 3)"
      by (simp add: a0 a1 a2 a3 numeral_2_eq_2 numeral_3_eq_3)
    with c k' h show ?thesis by simp
  qed
  show "\<exists>st' ev. train fuel shuffle evaluate a train_dls r fs = Some (Inr (st', ev))
          \<and> evaluated ev = [0..<length (evaluated ev)]
          \<and> int (length (evaluated ev)) \<le> max 0 (n_epochs a)
          \<and> saved ev = filter (\<lambda>e. acc (evaluate e) > best_before (\<lambda>e. acc (evaluate e)) e)
                          (evaluated ev)
          \<and> (patience_counter st' = patience a
               \<or> int (length (evaluated ev)) = max 0 (n_epochs a))
          \<and> (patience a = 2 \<and> 4 \<le> n_epochs a
               \<and> acc (evaluate 0) = 0.5 \<and> acc (evaluate 1) = 0.6
               \<and> acc (evaluate 2) = 0.55 \<and> acc (evaluate 3) = 0.55
              \<longrightarrow> evaluated ev = [0, 1, 2, 3] \<and> saved ev = [0, 1]
                  \<and> patience_counter st' = 2 \<and> best_acc st' = 0.6)"
    by (rule exI[of _ st'], rule exI[of _ ev]) (use tr s1 b i x ex in blast)
qed

text \<open>The run of the example: accuracies 0.5, 0.6, 0.55, 0.55, patience 2, four epochs allowed,
  loaders with 3, 5 and 2 batches.\<close>

theorem early_stopping_protocol_witness:
  "(1 \<le> gradient_accumulation example_args \<and> log_interval example_args \<noteq> 0
      \<and> patience example_args = 2 \<and> 4 \<le> n_epochs example_args
      \<and> acc (example_evaluate 0) = 0.5 \<and> acc (example_evaluate 1) = 0.6
      \<and> acc (example_evaluate 2) = 0.55 \<and> acc (example_evaluate 3) = 0.55)
   \<and> (\<exists>st' ev. train 13 rev_shuffle example_evaluate example_args example_dls () Map.empty
                  = Some (Inr (st', ev))
        \<and> evaluated ev = [0, 1, 2, 3] \<and> saved ev = [0, 1]
        \<and> patience_counter st' = 2 \<and> best_acc st' = 0.6)"
proof -
  have perm: "\<And>r xs. mset (fst (rev_shuffle r xs)) = mset xs" by (simp add: rev_shuffle_def)
  have g: "1 \<le> gradient_accumulation example_args" by (simp add: example_args_def)
  have li: "log_interval example_args \<noteq> 0" by (simp add: example_args_def)
  have fuel: "sum_list (map length example_dls) + length example_dls \<le> 13"
    by (simp add: example_dls_def)
  have h: "patience example_args = 2 \<and> 4 \<le> n_epochs example_args
      \<and> acc (example_evaluate 0) = 0.5 \<and> acc (example_evaluate 1) = 0.6
      \<and> acc (example_evaluate 2) = 0.55 \<and> acc (example_evaluate 3) = 0.55"
    by (simp add: example_args_def example_evaluate_def)
  note early_stopping_protocol[where shuffle = rev_shuffle and evaluate = example_evaluate
      and r = "()" and fs = Map.empty, OF perm g li fuel, THEN conjunct2]
  then obtain st' ev where
    "train 13 rev_shuffle example_evaluate example_args example_dls () Map.empty
       = Some (Inr (st', ev))"
    "patience example_args = 2 \<and> 4 \<le> n_epochs example_args
       \<and> acc (example_evaluate 0) = 0.5 \<and> acc (example_evaluate 1) = 0.6
       \<and> acc (example_evaluate 2) = 0.55 \<and> acc (example_evaluate 3) = 0.55
     \<longrightarrow> evaluated ev = [0, 1, 2, 3] \<and> saved ev = [0, 1]
         \<and> patience_counter st' = 2 \<and> best_acc st' = 0.6"
    by (elim exE conjE) blast
  with h g li show ?thesis by blast
qed

subsection \<open>C2: the interleaved scheduler\<close>

text \<open>
  C2.  In every epoch, for any list of per-domain loaders and any accumulation factor
  \<open>g\<close> (a positive number of batches; the epoch does not crash on \<open>log_interval\<close> 0), the
  epoch ends and: the batches the model is run on for domain \<open>d\<close> are exactly the
  batches of loader \<open>d\<close>, each once and in order, so every iterator is drained exactly once;
  every accumulation group (the forward passes before one optimizer step) is non-empty and
  holds batches of one domain only, and no forward pass is left outside a group; at the end
  every iterator is empty and every domain is marked finished.  A domain whose iterator is
  exhausted contributes nothing further: visiting it produces no event and changes nothing
  but its finished flag, while the other domains are still drained (first part).
  \<open>shuffle\<close> is any function that permutes its list; the fuel bounds the number of passes.
\<close>

theorem interleaved_scheduler_invariant:
  assumes perm: "\<And>r xs. mset (fst (shuffle r xs)) = mset xs"
    and g: "1 \<le> gradient_accumulation a" and li: "log_interval a \<noteq> 0"
    and fuel: "sum_list (map length train_dls) + length train_dls \<le> fuel"
  shows "(\<exists>st' ev. run_epoch fuel shuffle a train_dls r = Some (Inr (st', ev))
       \<and> (\<forall>d < length train_dls. consumed d ev = train_dls ! d)
       \<and> (\<forall>grp \<in> set (acc_groups ev []). \<exists>d < length train_dls. grp \<noteq> [] \<and> set grp = {d})
       \<and> pending ev [] = []
       \<and> dl_iters st' = replicate (length train_dls) []
       \<and> finished st' = replicate (length train_dls) 1)
     \<and> (\<forall>(st :: ('b, 'r) epoch_state) d. d < length (dl_iters st) \<and> dl_iters st ! d = []
           \<longrightarrow> visit a d st = Inr (st\<lparr>finished := (finished st)[d := 1]\<rparr>, []))"
proof
  from run_epoch_schedule[where shuffle = shuffle, OF perm g li fuel, of r] obtain gs st' where
    run: "run_epoch fuel shuffle a train_dls r = Some (Inr (st', render a 0 gs))"
    and dom: "\<forall>d < length train_dls. of_domain d gs = train_dls ! d"
    and grp: "\<forall>g \<in> set gs. fst g < length train_dls \<and> snd g \<noteq> []
                     \<and> length (snd g) \<le> nat (gradient_accumulation a)"
    and e1: "dl_iters st' = replicate (length train_dls) []"
    and f1: "finished st' = replicate (length train_dls) 1"
    by blast
  have c: "\<forall>d < length train_dls. consumed d (render a 0 gs) = train_dls ! d"
    using dom by (simp add: consumed_render)
  have "\<exists>d < length train_dls. grp \<noteq> [] \<and> set grp = {d}"
    if "grp \<in> set (acc_groups (render a 0 gs) [])" for grp
  proof -
    from that obtain g where gin: "g \<in> set gs" and eq: "grp = replicate (length (snd g)) (fst g)"
      by (auto simp: acc_groups_render)
    have "fst g < length train_dls" "snd g \<noteq> []" using grp gin by simp_all
    then show ?thesis using eq by (intro exI[of _ "fst g"]) simp
  qed
  then have u: "\<forall>grp \<in> set (acc_groups (render a 0 gs) []).
      \<exists>d < length train_dls. grp \<noteq> [] \<and> set grp = {d}"
    by blast
  show "\<exists>st' ev. run_epoch fuel shuffle a train_dls r = Some (Inr (st', ev))
       \<and> (\<forall>d < length train_dls. consumed d ev = train_dls ! d)
       \<and> (\<forall>grp \<in> set (acc_groups ev []). \<exists>d < length train_dls. grp \<noteq> [] \<and> set grp = {d})
       \<and> pending ev [] = []
       \<and> dl_iters st' = replicate (length train_dls) []
       \<and> finished st' = replicate (length train_dls) 1"
    using run c u pending_render[of a 0 gs] e1 f1 by blast
next
  show "\<forall>(st :: ('b, 'r) epoch_state) d. d < length (dl_iters st) \<and> dl_iters st ! d = []
           \<longrightarrow> visit a d st = Inr (st\<lparr>finished := (finished st)[d := 1]\<rparr>, [])"
  proof (intro allI impI)
    fix st :: "('b, 'r) epoch_state" and d
    assume h: "d < length (dl_iters st) \<and> dl_iters st ! d = []"
    then have "(dl_iters st)[d := []] = dl_iters st" by (metis list_update_id)
    moreover have "0 < nat (gradient_accumulation a)" using g by simp
    ultimately show "visit a d st = Inr (st\<lparr>finished := (finished st)[d := 1]\<rparr>, [])"
      using h by (simp add: visit_def pull_take_drop)
  qed
qed

text \<open>The theorem at the batch counts \<open>[3, 5, 2]\<close> with accumulation factor 2.\<close>

theorem interleaved_scheduler_invariant_witness:
  "(1 \<le> gradient_accumulation example_args \<and> log_interval example_args \<noteq> 0)
   \<and> (\<exists>st' ev. run_epoch 13 rev_shuffle example_args example_dls () = Some (Inr (st', ev))
        \<and> consumed 0 ev = [1, 2, 3] \<and> consumed 1 ev = [4, 5, 6, 7, 8] \<and> consumed 2 ev = [9, 10]
        \<and> pending ev [] = []
        \<and> dl_iters st' = [[], [], []] \<and> finished st' = [1, 1, 1])"
proof -
  have perm: "\<And>r xs. mset (fst (rev_shuffle r xs)) = mset xs" by (simp add: rev_shuffle_def)
  have g: "1 \<le> gradient_accumulation example_args" by (simp add: example_args_def)
  have li: "log_interval example_args \<noteq> 0" by (simp add: example_args_def)
  have fuel: "sum_list (map length example_dls) + length example_dls \<le> 13"
    by (simp add: example_dls_def)
  from interleaved_scheduler_invariant[where shuffle = rev_shuffle, OF perm g li fuel, of "()"]
  obtain st' ev where
    run: "run_epoch 13 rev_shuffle example_args example_dls () = Some (Inr (st', ev))"
    and c: "\<forall>d < length example_dls. consumed d ev = example_dls ! d"
    and p: "pending ev [] = []"
    and e: "dl_iters st' = replicate (length example_dls) []"
    and f: "finished st' = replicate (length example_dls) 1"
    by blast
  have "consumed 0 ev = [1, 2, 3]" "consumed 1 ev = [4, 5, 6, 7, 8]" "consumed 2 ev = [9, 10]"
    using c by (simp_all add: example_dls_def)
  moreover have "dl_iters st' = [[], [], []]" "finished st' = [1, 1, 1]"
    using e f by (simp_all add: example_dls_def numeral_3_eq_3)
  ultimately show ?thesis using run p g li by blast
qed

subsection \<open>C3: optimizer steps\<close>

text \<open>
  C3.  For an accumulation factor \<open>g\<close> of at least 1 the trace of an epoch is the trace of a
  list of non-empty accumulation groups of at most \<open>g\<close> batches: for each group one
  \<open>ZeroGrad\<close>, then for each pulled batch a forward pass whose loss is divided by \<open>g\<close>
  (also when the group has fewer than \<open>g\<close> batches) and a backward pass, then exactly one
  optimizer step and, when a scheduler is present, one scheduler step.  A visit that pulls no
  batch produces no event at all, so no optimizer step.  The number of optimizer steps of the
  epoch is the sum over the loaders of their batch count divided by \<open>g\<close>, rounded up.
\<close>

theorem optimizer_step_accounting:
  assumes perm: "\<And>r xs. mset (fst (shuffle r xs)) = mset xs"
    and g: "1 \<le> gradient_accumulation a" and li: "log_interval a \<noteq> 0"
    and fuel: "sum_list (map length train_dls) + length train_dls \<le> fuel"
  shows "(\<exists>st' ev gs. run_epoch fuel shuffle a train_dls r = Some (Inr (st', ev))
       \<and> ev = render a 0 gs
       \<and> (\<forall>g \<in> set gs. snd g \<noteq> [] \<and> length (snd g) \<le> nat (gradient_accumulation a))
       \<and> divisors ev = replicate (sum_list (map length train_dls)) (gradient_accumulation a)
       \<and> opt_steps ev = length gs
       \<and> zero_grads ev = opt_steps ev
       \<and> sched_steps ev = (if has_scheduler a then opt_steps ev else 0)
       \<and> opt_steps ev
           = (\<Sum>it\<leftarrow>train_dls. nat \<lceil>real (length it) / real_of_int (gradient_accumulation a)\<rceil>))
     \<and> (\<forall>(st :: ('b, 'r) epoch_state) d. \<exists>st1. visit a d st =
           Inr (st1,
                if take (nat (gradient_accumulation a)) (dl_iters st ! d) = [] then []
                else [ZeroGrad]
                     @ batch_events a d (take (nat (gradient_accumulation a)) (dl_iters st ! d))
                         (batch_i st)
                     @ [OptimizerStep] @ (if has_scheduler a then [SchedulerStep] else [])))"
proof
  from run_epoch_schedule[where shuffle = shuffle, OF perm g li fuel, of r] obtain gs st' where
    run: "run_epoch fuel shuffle a train_dls r = Some (Inr (st', render a 0 gs))"
    and grp: "\<forall>g \<in> set gs. fst g < length train_dls \<and> snd g \<noteq> []
                     \<and> length (snd g) \<le> nat (gradient_accumulation a)"
    and cnt: "length gs
        = sum_list (map (\<lambda>it. cdiv (length it) (nat (gradient_accumulation a))) train_dls)"
    and tot: "sum_list (map (\<lambda>g. length (snd g)) gs) = sum_list (map length train_dls)"
    by blast
  let ?ev = "render a 0 gs"
  have c: "(\<Sum>it\<leftarrow>train_dls. nat \<lceil>real (length it) / real_of_int (gradient_accumulation a)\<rceil>)
        = sum_list (map (\<lambda>it. cdiv (length it) (nat (gradient_accumulation a))) train_dls)"
    by (simp add: ceil_cdiv[OF g])
  have 1: "\<forall>g \<in> set gs. snd g \<noteq> [] \<and> length (snd g) \<le> nat (gradient_accumulation a)"
    using grp by simp
  have 2: "divisors ?ev = replicate (sum_list (map length train_dls)) (gradient_accumulation a)"
    by (simp add: divisors_render tot)
  have 3: "opt_steps ?ev = length gs" by (rule opt_steps_render)
  have 4: "zero_grads ?ev = opt_steps ?ev" by (simp add: zero_grads_render opt_steps_render)
  have 5: "sched_steps ?ev = (if has_scheduler a then opt_steps ?ev else 0)"
    by (simp add: sched_steps_render opt_steps_render)
  have 6: "opt_steps ?ev
      = (\<Sum>it\<leftarrow>train_dls. nat \<lceil>real (length it) / real_of_int (gradient_accumulation a)\<rceil>)"
    using cnt by (simp only: c opt_steps_render)
  show "\<exists>st' ev gs. run_epoch fuel shuffle a train_dls r = Some (Inr (st', ev))
       \<and> ev = render a 0 gs
       \<and> (\<forall>g \<in> set gs. snd g \<noteq> [] \<and> length (snd g) \<le> nat (gradient_accumulation a))
       \<and> divisors ev = replicate (sum_list (map length train_dls)) (gradient_accumulation a)
       \<and> opt_steps ev = length gs
       \<and> zero_grads ev = opt_steps ev
       \<and> sched_steps ev = (if has_scheduler a then opt_steps ev else 0)
       \<and> opt_steps ev
           = (\<Sum>it\<leftarrow>train_dls. nat \<lceil>real (length it) / real_of_int (gradient_accumulation a)\<rceil>)"
    using run 1 2 3 4 5 6 by blast
next
  show "\<forall>(st :: ('b, 'r) epoch_state) d. \<exists>st1. visit a d st =
           Inr (st1,
                if take (nat (gradient_accumulation a)) (dl_iters st ! d) = [] then []
                else [ZeroGrad]
                     @ batch_events a d (take (nat (gradient_accumulation a)) (dl_iters st ! d))
                         (batch_i st)
                     @ [OptimizerStep] @ (if has_scheduler a then [SchedulerStep] else []))"
  proof (intro allI)
    fix st :: "('b, 'r) epoch_state" and d
    have e: "take (nat (gradient_accumulation a)) (dl_iters st ! d) = [] \<longleftrightarrow> dl_iters st ! d = []"
      using g by (cases "dl_iters st ! d") (auto simp: take_Cons')
    show "\<exists>st1. visit a d st =
           Inr (st1,
                if take (nat (gradient_accumulation a)) (dl_iters st ! d) = [] then []
                else [ZeroGrad]
                     @ batch_events a d (take (nat (gradient_accumulation a)) (dl_iters st ! d))
                         (batch_i st)
                     @ [OptimizerStep] @ (if has_scheduler a then [SchedulerStep] else []))"
      unfolding visit_ok[OF g li] e
      by (intro exI[of _ "visit_state a d st"]) (simp add: visit_groups_def)
  qed
qed

text \<open>The theorem at the batch counts \<open>[3, 5, 2]\<close> with accumulation factor 2: six optimizer
  steps (2 + 3 + 1), six scheduler steps, ten losses divided by 2.\<close>

theorem optimizer_step_accounting_witness:
  "(1 \<le> gradient_accumulation example_args \<and> log_interval example_args \<noteq> 0)
   \<and> (\<exists>st' ev. run_epoch 13 rev_shuffle example_args example_dls () = Some (Inr (st', ev))
        \<and> opt_steps ev = 6 \<and> sched_steps ev = 6 \<and> zero_grads ev = 6
        \<and> divisors ev = [2, 2, 2, 2, 2, 2, 2, 2, 2, 2])"
proof -
  have perm: "\<And>r xs. mset (fst (rev_shuffle r xs)) = mset xs" by (simp add: rev_shuffle_def)
  have g: "1 \<le> gradient_accumulation example_args" by (simp add: example_args_def)
  have li: "log_interval example_args \<noteq> 0" by (simp add: example_args_def)
  have fuel: "sum_list (map length example_dls) + length example_dls \<le> 13"
    by (simp add: example_dls_def)
  from optimizer_step_accounting[where shuffle = rev_shuffle, OF perm g li fuel, of "()"]
  obtain st' ev where
    run: "run_epoch 13 rev_shuffle example_args example_dls () = Some (Inr (st', ev))"
    and d: "divisors ev = replicate (sum_list (map length example_dls))
                            (gradient_accumulation example_args)"
    and z: "zero_grads ev = opt_steps ev"
    and s: "sched_steps ev = (if has_scheduler example_args then opt_steps ev else 0)"
    and o: "opt_steps ev = (\<Sum>it\<leftarrow>example_dls.
              nat \<lceil>real (length it) / real_of_int (gradient_accumulation example_args)\<rceil>)"
    by blast
  have c: "\<lceil>3 / 2 :: real\<rceil> = 2" "\<lceil>5 / 2 :: real\<rceil> = 3" by linarith+
  have o6: "opt_steps ev = 6" using o c by (simp add: example_dls_def example_args_def)
  have "sched_steps ev = 6" "zero_grads ev = 6" using s z o6 by (simp_all add: example_args_def)
  moreover have "divisors ev = [2, 2, 2, 2, 2, 2, 2, 2, 2, 2]"
    using d by (simp add: example_dls_def example_args_def)
  ultimately show ?thesis using run o6 g li by blast
qed

subsection \<open>C4: micro and macro metrics\<close>



subsection \<open>C5: a reload from files of another run\<close>

text \<open>
  C5 says that a reload fails with a configuration error when the indices directory does not
  belong to the same domains in the same order.  The script has no such check.  The files
  saved for the remaining domains \<open>dvd, kitchen\<close> (in this order) are reloaded without any
  error by a run whose remaining domains are \<open>kitchen, dvd\<close>: the indices saved for
  \<open>dvd\<close> are attached to \<open>kitchen\<close> and those of \<open>kitchen\<close> to \<open>dvd\<close>.
\<close>

theorem reload_other_order_counterexample:
  "reload_split (run_path example_args) ''books'' swapped_dsets
        (save_indices example_args ''books'' example_subsets Map.empty)
     = Inr [(''kitchen'', [3, 1, 2], [0]), (''dvd'', [1], [0, 2])]"
proof -
  have len: "length swapped_dsets = length example_subsets"
    by (simp add: swapped_dsets_def example_subsets_def)
  have so: "slot_order example_subsets = [0, 1]"
    by (simp add: slot_order_def example_subsets_def numeral_2_eq_2)
  show ?thesis
    unfolding reload_saved_split[OF len] so
    by (simp add: swapped_dsets_def example_subsets_def)
qed

text \<open>
  C5 as amended.  A reload does not compare the index files with the domains of the run.
  Its outcome depends on the list of remaining data sets only through the length of the
  list: it is the outcome of the reload for the positions \<open>0, \<dots>, k - 1\<close>, with the data set
  at a position put in its place.  So two runs with equally many remaining domains fail on
  the same files with the same error or both succeed with the same index lists, in whatever
  order the domains are listed; and the only errors of a reload are \<^verbatim>\<open>FileNotFoundError\<close>
  (a missing file), \<^verbatim>\<open>ValueError\<close> or \<^verbatim>\<open>IndexError\<close> (a malformed line) and
  \<^verbatim>\<open>IndexError\<close> (a slot out of range).
\<close>

theorem reload_checks_slots_only:
  "reload_split dir domain dc files =
     (case reload_split dir domain [0..<length dc] files of
        Inl e \<Rightarrow> Inl e
      | Inr xs \<Rightarrow> Inr (map (\<lambda>(j, tr, va). (dc ! j, tr, va)) xs))
   \<and> (length dc' = length dc \<longrightarrow>
        (\<forall>e. reload_split dir domain dc files = Inl e
              \<longleftrightarrow> reload_split dir domain dc' files = Inl e)
        \<and> (\<forall>subs. reload_split dir domain dc files = Inr subs \<longrightarrow>
              (\<exists>subs'. reload_split dir domain dc' files = Inr subs'
                       \<and> map snd subs' = map snd subs)))
   \<and> (\<forall>e. reload_split dir domain dc files = Inl e \<longrightarrow>
          e = FileNotFoundError \<or> e = ValueError \<or> e = IndexError)"
proof (intro conjI impI allI)
  show "reload_split dir domain dc files =
     (case reload_split dir domain [0..<length dc] files of
        Inl e \<Rightarrow> Inl e
      | Inr xs \<Rightarrow> Inr (map (\<lambda>(j, tr, va). (dc ! j, tr, va)) xs))"
    by (rule reload_split_positions)
next
  fix e
  assume len: "length dc' = length dc"
  show "reload_split dir domain dc files = Inl e \<longleftrightarrow> reload_split dir domain dc' files = Inl e"
    unfolding reload_split_positions[of dir domain dc] reload_split_positions[of dir domain dc'] len
    by (cases "reload_split dir domain [0..<length dc] files") simp_all
next
  fix subs
  assume len: "length dc' = length dc"
    and ok: "reload_split dir domain dc files = Inr subs"
  obtain xs where xs: "reload_split dir domain [0..<length dc] files = Inr xs"
    and s: "subs = map (\<lambda>(j, tr, va). (dc ! j, tr, va)) xs"
    using ok unfolding reload_split_positions[of dir domain dc]
    by (cases "reload_split dir domain [0..<length dc] files") auto
  have r: "reload_split dir domain dc' files = Inr (map (\<lambda>(j, tr, va). (dc' ! j, tr, va)) xs)"
    unfolding reload_split_positions[of dir domain dc'] len xs by simp
  have "map snd (map (\<lambda>(j, tr, va). (dc' ! j, tr, va)) xs) = map snd subs"
    unfolding s by (simp add: comp_def case_prod_beta)
  with r show "\<exists>subs'. reload_split dir domain dc' files = Inr subs' \<and> map snd subs' = map snd subs"
    by blast
next
  fix e
  assume "reload_split dir domain dc files = Inl e"
  then show "e = FileNotFoundError \<or> e = ValueError \<or> e = IndexError"
    by (rule reload_split_error)
qed

text \<open>The amended statement for the saved split of two domains, reloaded by the run that saved
  it and by the run with the domains in the other order: both succeed, with the same index
  lists.\<close>

theorem reload_checks_slots_only_witness:
  "length swapped_dsets = length example_dsets
   \<and> reload_split (run_path example_args) ''books'' example_dsets
        (save_indices example_args ''books'' example_subsets Map.empty)
      = Inr [(''dvd'', [3, 1, 2], [0]), (''kitchen'', [1], [0, 2])]
   \<and> (\<exists>subs'. reload_split (run_path example_args) ''books'' swapped_dsets
                  (save_indices example_args ''books'' example_subsets Map.empty) = Inr subs'
          \<and> map snd subs' = [([3, 1, 2], [0]), ([1], [0, 2])])"
proof -
  have len: "length swapped_dsets = length example_dsets"
    by (simp add: swapped_dsets_def example_dsets_def)
  have len2: "length example_dsets = length example_subsets"
    by (simp add: example_dsets_def example_subsets_def)
  have so: "slot_order example_subsets = [0, 1]"
    by (simp add: slot_order_def example_subsets_def numeral_2_eq_2)
  have a: "reload_split (run_path example_args) ''books'' example_dsets
        (save_indices example_args ''books'' example_subsets Map.empty)
      = Inr [(''dvd'', [3, 1, 2], [0]), (''kitchen'', [1], [0, 2])]"
    unfolding reload_saved_split[OF len2] so
    by (simp add: example_dsets_def example_subsets_def)
  note th = reload_checks_slots_only[where dc = example_dsets and dc' = swapped_dsets
      and dir = "run_path example_args" and domain = "''books''"
      and files = "save_indices example_args ''books'' example_subsets Map.empty",
      THEN conjunct2, THEN conjunct1, THEN mp, OF len, THEN conjunct2, THEN spec, THEN mp, OF a]
  then have "\<exists>subs'. reload_split (run_path example_args) ''books'' swapped_dsets
                  (save_indices example_args ''books'' example_subsets Map.empty) = Inr subs'
          \<and> map snd subs' = [([3, 1, 2], [0]), ([1], [0, 2])]"
    by simp
  with len a show ?thesis by blast
qed

subsection \<open>C6: the checkpoint that may be missing\<close>



subsection \<open>C7: the fresh split\<close>



subsection \<open>C8: saving and reloading a split\<close>

text \<open>
  C8.  When the index files written for a fresh split are reloaded in a run with the same
  remaining domains, every slot that has an index gets back exactly its train and its
  validation index list, in the saved order, attached to the data set of its slot.  The
  subsets come in the order in which the slots are met in the files: the slots with a
  non-empty train list first, then the slots with validation indices only; a slot whose data
  set is empty has no line and no subset.  When every train list is non-empty, which is the
  case for every split that can be trained on, the reloaded list of subsets is the saved list.
\<close>

theorem split_round_trip:
  assumes len: "length dc = length subsets"
  shows "reload_split (run_path a) domain dc (save_indices a domain subsets files)
           = Inr (map (\<lambda>j. (dc ! j, map int (fst (subsets ! j)), map int (snd (subsets ! j))))
                    (slot_order subsets))
     \<and> ((\<forall>s \<in> set subsets. fst s \<noteq> []) \<longrightarrow>
          reload_split (run_path a) domain dc (save_indices a domain subsets files)
            = Inr (map (\<lambda>j. (dc ! j, map int (fst (subsets ! j)), map int (snd (subsets ! j))))
                     [0..<length subsets]))
     \<and> set (slot_order subsets)
         = {j. j < length subsets \<and> (fst (subsets ! j) \<noteq> [] \<or> snd (subsets ! j) \<noteq> [])}
     \<and> distinct (slot_order subsets)"
proof -
  let ?k = "length subsets"
  have main: "reload_split (run_path a) domain dc (save_indices a domain subsets files)
           = Inr (map (\<lambda>j. (dc ! j, map int (fst (subsets ! j)), map int (snd (subsets ! j))))
                    (slot_order subsets))"
    by (rule reload_saved_split[OF len])
  have full: "slot_order subsets = [0..<?k]" if ne: "\<forall>s \<in> set subsets. fst s \<noteq> []"
  proof -
    have "fst (subsets ! j) \<noteq> []" if "j < ?k" for j using ne that by simp
    then have "filter (\<lambda>j. fst (subsets ! j) \<noteq> []) [0..<?k] = [0..<?k]"
      and "filter (\<lambda>j. fst (subsets ! j) = [] \<and> snd (subsets ! j) \<noteq> []) [0..<?k] = []"
      by (simp_all add: filter_empty_conv)
    then show ?thesis by (simp add: slot_order_def)
  qed
  have s: "set (slot_order subsets)
         = {j. j < ?k \<and> (fst (subsets ! j) \<noteq> [] \<or> snd (subsets ! j) \<noteq> [])}"
    by (auto simp: slot_order_def)
  have d: "distinct (slot_order subsets)"
    by (auto simp: slot_order_def)
  show ?thesis using main full s d by simp
qed

text \<open>The round trip for a split of two domains.\<close>

theorem split_round_trip_witness:
  "length example_dsets = length example_subsets
   \<and> reload_split (run_path example_args) ''books'' example_dsets
        (save_indices example_args ''books'' example_subsets Map.empty)
      = Inr [(''dvd'', [3, 1, 2], [0]), (''kitchen'', [1], [0, 2])]"
proof -
  have len: "length example_dsets = length example_subsets"
    by (simp add: example_dsets_def example_subsets_def)
  have so: "slot_order example_subsets = [0, 1]"
    by (simp add: slot_order_def example_subsets_def numeral_2_eq_2)
  have "reload_split (run_path example_args) ''books'' example_dsets
        (save_indices example_args ''books'' example_subsets Map.empty)
      = Inr (map (\<lambda>j. (example_dsets ! j, map int (fst (example_subsets ! j)),
                        map int (snd (example_subsets ! j))))
               (slot_order example_subsets))"
    by (rule split_round_trip[OF len, THEN conjunct1])
  also have "\<dots> = Inr [(''dvd'', [3, 1, 2], [0]), (''kitchen'', [1], [0, 2])]"
    unfolding so by (simp add: example_dsets_def example_subsets_def)
  finally show ?thesis using len by simp
qed

subsection \<open>C9: when losses and validation metrics are logged\<close>

text \<open>
  C9 says that a loss is logged once for every \<open>log_interval\<close>-th accumulation group.  The
  counter \<open>i\<close> of line 92 counts batches, not groups.  With one loader of two batches,
  accumulation factor 2 and \<open>log_interval\<close> 1 the epoch has one accumulation group (one
  optimizer step) and logs two losses, at the counters 0 and 1.
\<close>

theorem loss_logged_per_batch_counterexample:
  "run_epoch 2 rev_shuffle example_args two_batches ()
     = Some (Inr (\<lparr>dl_iters = [[]], dl_idx = [0], finished = [1], batch_i = 2, rng = ()\<rparr>,
                  [ZeroGrad, Forward 0 1 2, LogLoss 0, Backward, Forward 0 2 2, LogLoss 1,
                   Backward, OptimizerStep, SchedulerStep]))
   \<and> acc_groups [ZeroGrad, Forward 0 (1::nat) 2, LogLoss 0, Backward, Forward 0 2 2, LogLoss 1,
                   Backward, OptimizerStep, SchedulerStep] [] = [[0, 0]]
   \<and> loss_logs [ZeroGrad, Forward 0 (1::nat) 2, LogLoss 0, Backward, Forward 0 2 2, LogLoss 1,
                   Backward, OptimizerStep, SchedulerStep] = [0, 1]"
  by (simp add: run_epoch_def rev_shuffle_def example_args_def two_batches_def visit_def
      numeral_2_eq_2)

text \<open>
  C9 as amended.  In every epoch a loss is logged at exactly the batches whose index within
  the epoch, counting every batch of every domain from 0, is a multiple of \<open>log_interval\<close>:
  once per \<open>log_interval\<close> batches, whatever the accumulation factor.  Over a run of
  \<^verbatim>\<open>train\<close> this repeats for every epoch, and validation metrics are logged exactly for
  the epochs a checkpoint is saved after, which are the epochs whose validation accuracy is
  above the best seen before.
\<close>

theorem loss_logged_per_batch:
  assumes perm: "\<And>r xs. mset (fst (shuffle r xs)) = mset xs"
    and g: "1 \<le> gradient_accumulation a" and li: "log_interval a \<noteq> 0"
    and fuel: "sum_list (map length train_dls) + length train_dls \<le> fuel"
  shows "(\<exists>es ev. run_epoch fuel shuffle a (train_dls :: 'b list list) r = Some (Inr (es, ev))
            \<and> loss_logs ev = filter (\<lambda>i. int i mod log_interval a = 0)
                                [0..<sum_list (map length train_dls)])
     \<and> (\<exists>st' ev. train fuel shuffle evaluate a train_dls r fs = Some (Inr (st', ev))
            \<and> loss_logs ev
                = concat (replicate (length (evaluated ev))
                    (filter (\<lambda>i. int i mod log_interval a = 0)
                       [0..<sum_list (map length train_dls)]))
            \<and> val_logs ev = map evaluate (saved ev)
            \<and> saved ev = filter (\<lambda>e. acc (evaluate e) > best_before (\<lambda>e. acc (evaluate e)) e)
                            (evaluated ev))"
proof
  from run_epoch_schedule[where shuffle = shuffle, OF perm g li fuel, of r] obtain gs es where
    run: "run_epoch fuel shuffle a train_dls r = Some (Inr (es, render a 0 gs))"
    and tot: "sum_list (map (\<lambda>g. length (snd g)) gs) = sum_list (map length train_dls)"
    by blast
  have "loss_logs (render a 0 gs) = filter (\<lambda>i. int i mod log_interval a = 0)
                                [0..<sum_list (map length train_dls)]"
    by (simp add: loss_logs_render tot)
  with run show "\<exists>es ev. run_epoch fuel shuffle a train_dls r = Some (Inr (es, ev))
            \<and> loss_logs ev = filter (\<lambda>i. int i mod log_interval a = 0)
                                [0..<sum_list (map length train_dls)]"
    by blast
next
  let ?va = "\<lambda>e. acc (evaluate e)"
  let ?st0 = "\<lparr>best_acc = 0, patience_counter = 0, epoch_counter = 0, t_rng = r, ckpts = fs\<rparr>"
  let ?k = "nat (n_epochs a)"
  have k: "?k = nat (n_epochs a - int (epoch_counter ?st0))" by simp
  from train_loop_ctl[where shuffle = shuffle and evaluate = evaluate, OF perm g li fuel k]
  obtain st' ev where
    run: "train_loop fuel shuffle evaluate a train_dls ?st0 = Some (Inr (st', ev))"
    and c: "ctl (patience a) ?va ?k 0 0 0
            = (evaluated ev, saved ev, best_acc st', patience_counter st', epoch_counter st')"
    and v: "val_logs ev = map evaluate (saved ev)"
    and l: "loss_logs ev = concat (replicate (length (evaluated ev))
                                  (epoch_logs a (sum_list (map length train_dls))))"
    by auto
  have tr: "train fuel shuffle evaluate a train_dls r fs = Some (Inr (st', ev))"
    using run by (simp add: train_def)
  have i: "saved ev = filter (\<lambda>e. ?va e > best_before ?va e) (evaluated ev)"
    by (rule ctl_improving[OF c]) simp
  show "\<exists>st' ev. train fuel shuffle evaluate a train_dls r fs = Some (Inr (st', ev))
            \<and> loss_logs ev
                = concat (replicate (length (evaluated ev))
                    (filter (\<lambda>i. int i mod log_interval a = 0)
                       [0..<sum_list (map length train_dls)]))
            \<and> val_logs ev = map evaluate (saved ev)
            \<and> saved ev = filter (\<lambda>e. acc (evaluate e) > best_before (\<lambda>e. acc (evaluate e)) e)
                            (evaluated ev)"
    by (rule exI[of _ st'], rule exI[of _ ev]) (use tr v i l in \<open>simp add: epoch_logs_def\<close>)
qed

text \<open>The amended statement for the loader of two batches: both batches are logged.\<close>

theorem loss_logged_per_batch_witness:
  "(1 \<le> gradient_accumulation example_args \<and> log_interval example_args \<noteq> 0)
   \<and> (\<exists>es ev. run_epoch 3 rev_shuffle example_args two_batches () = Some (Inr (es, ev))
         \<and> loss_logs ev = [0, 1])"
proof -
  have perm: "\<And>r xs. mset (fst (rev_shuffle r xs)) = mset xs" by (simp add: rev_shuffle_def)
  have g: "1 \<le> gradient_accumulation example_args" by (simp add: example_args_def)
  have li: "log_interval example_args \<noteq> 0" by (simp add: example_args_def)
  have fuel: "sum_list (map length two_batches) + length two_batches \<le> 3"
    by (simp add: two_batches_def)
  note loss_logged_per_batch[where shuffle = rev_shuffle and r = "()" and fs = Map.empty
      and evaluate = example_evaluate, OF perm g li fuel, THEN conjunct1]
  then obtain es ev where
    run: "run_epoch 3 rev_shuffle example_args two_batches () = Some (Inr (es, ev))"
    and l: "loss_logs ev = filter (\<lambda>i. int i mod log_interval example_args = 0)
                                [0..<sum_list (map length two_batches)]"
    by blast
  have "[0..<2] = [0, Suc 0]" by (simp add: numeral_2_eq_2)
  then have "loss_logs ev = [0, 1]" using l by (simp add: two_batches_def example_args_def)
  with run g li show ?thesis by blast
qed

subsection \<open>C10: what a reload checks\<close>

text \<open>
  C10.  For index files that exist and whose lines parse, with train entries \<open>tes\<close> and
  validation entries \<open>ves\<close> (pairs of slot and index), the reload is decided by the slot
  values alone.  If every slot value is in the range of Python indexing for the list of
  remaining data sets (from \<open>- k\<close> up to \<open>k - 1\<close> for \<open>k\<close> data sets), the result is one pair
  of subsets for every slot value that occurs in either file, in the order of first
  occurrence, with the indices the files give for this slot; otherwise the result is
  \<^verbatim>\<open>IndexError\<close>.  So a slot that occurs in no file gets no subsets and no error, a slot
  that occurs in one file only gets an empty subset on the other side, a slot value of at
  least \<open>k\<close> raises \<^verbatim>\<open>IndexError\<close>, and nothing else is checked.
\<close>

theorem reload_implicit_behaviour:
  assumes f: "files (train_idx_path dir domain) = Some f"
    and g: "files (val_idx_path dir domain) = Some g"
    and pf: "parse_all (file_lines f []) = Inr tes"
    and pg: "parse_all (file_lines g []) = Inr ves"
  shows "reload_split dir domain dc files =
           (if \<forall>d \<in> fst ` set (tes @ ves). - int (length dc) \<le> d \<and> d < int (length dc)
            then Inr (map (\<lambda>d. (dc ! py_pos dc d, idx_of tes d, idx_of ves d))
                        (slot_keys [] (map fst (tes @ ves))))
            else Inl IndexError)
     \<and> distinct (slot_keys [] (map fst (tes @ ves)))
     \<and> set (slot_keys [] (map fst (tes @ ves))) = fst ` set (tes @ ves)
     \<and> (\<forall>subs. reload_split dir domain dc files = Inr subs \<longrightarrow>
           length subs = card (fst ` set (tes @ ves)))
     \<and> (\<forall>d. d \<notin> fst ` set tes \<longrightarrow> idx_of tes d = [])
     \<and> (\<forall>d. d \<notin> fst ` set ves \<longrightarrow> idx_of ves d = [])
     \<and> ((\<exists>d \<in> fst ` set (tes @ ves). int (length dc) \<le> d) \<longrightarrow>
           reload_split dir domain dc files = Inl IndexError)"
proof -
  let ?ks = "slot_keys [] (map fst (tes @ ves))"
  have ks: "set ?ks = fst ` set (tes @ ves)" by (simp add: slot_keys_set image_Un)
  have dk: "distinct ?ks" by (rule slot_keys_distinct) simp
  have main: "reload_split dir domain dc files =
           (if \<forall>d \<in> fst ` set (tes @ ves). - int (length dc) \<le> d \<and> d < int (length dc)
            then Inr (map (\<lambda>d. (dc ! py_pos dc d, idx_of tes d, idx_of ves d)) ?ks)
            else Inl IndexError)"
    unfolding reload_split_entries[OF f g pf pg] ks by (simp add: in_range_def)
  have card: "length ?ks = card (fst ` set (tes @ ves))"
    using distinct_card[OF dk] ks by simp
  have len: "length subs = card (fst ` set (tes @ ves))"
    if "reload_split dir domain dc files = Inr subs" for subs
    using that card unfolding main by (auto split: if_splits)
  have e1: "idx_of tes d = []" if "d \<notin> fst ` set tes" for d
    using that by (auto simp: idx_of_def filter_empty_conv)
  have e2: "idx_of ves d = []" if "d \<notin> fst ` set ves" for d
    using that by (auto simp: idx_of_def filter_empty_conv)
  have err: "reload_split dir domain dc files = Inl IndexError"
    if "\<exists>d \<in> fst ` set (tes @ ves). int (length dc) \<le> d"
    using that unfolding main by force
  show ?thesis using main dk ks len e1 e2 err by blast
qed

text \<open>Files in which slot 1 is missing and slot 2 has train indices only: with three
  remaining data sets two pairs of subsets are built, the second with an empty validation
  subset; with two remaining data sets slot 2 is out of range.\<close>

theorem reload_implicit_behaviour_witness:
  "reload_split ''saved'' ''books'' [''dvd'', ''kitchen'', ''electronics''] sparse_files
     = Inr [(''dvd'', [3, 1], [7]), (''electronics'', [10], [])]
   \<and> reload_split ''saved'' ''books'' [''dvd'', ''kitchen''] sparse_files = Inl IndexError"
proof -
  have neq: "train_idx_path ''saved'' ''books'' \<noteq> val_idx_path ''saved'' ''books''"
    by (rule paths_differ)
  have f: "sparse_files (train_idx_path ''saved'' ''books'')
           = Some (write_indices 0 [[3, 1], [], [10]])"
    using neq by (simp add: sparse_files_def)
  have g: "sparse_files (val_idx_path ''saved'' ''books'') = Some (write_indices 0 [[7], [], []])"
    by (simp add: sparse_files_def)
  have pf: "parse_all (file_lines (write_indices 0 [[3, 1], [], [10]]) [])
            = Inr [(0, 3), (0, 1), (2, 10)]"
    unfolding file_lines_write_indices by (simp add: numeral_2_eq_2)
  have pg: "parse_all (file_lines (write_indices 0 [[7], [], []]) []) = Inr [(0, 7)]"
    unfolding file_lines_write_indices by simp
  note th = reload_implicit_behaviour[OF f g pf pg, THEN conjunct1]
  have a: "reload_split ''saved'' ''books'' [''dvd'', ''kitchen'', ''electronics''] sparse_files
     = Inr [(''dvd'', [3, 1], [7]), (''electronics'', [10], [])]"
    unfolding th by (simp add: slot_keys_def add_key_def idx_of_def py_pos_def)
  have b: "reload_split ''saved'' ''books'' [''dvd'', ''kitchen''] sparse_files = Inl IndexError"
    unfolding th by simp
  from a b show ?thesis by (rule conjI)
qed

end
